theory Spec2Isabelle
  imports Main
begin

section \<open>Data model of \<^verbatim>\<open>lib/models/instantiate-addons.js\<close>\<close>

text \<open>
  The function \<^verbatim>\<open>instantiateAddons(parent, project, addonPackages)\<close> receives a map of
  addon names to descriptors (\<^verbatim>\<open>addonInfo\<close>: name, path and the \<^verbatim>\<open>package.json\<close> object
  \<^verbatim>\<open>pkg\<close>). A JavaScript property that may be missing is an \<open>option\<close>; a string is
  falsy exactly when it is missing or empty.
\<close>

type_synonym name = string

text \<open>A value thrown by code the function calls (the file system, the module loader, a plugin).\<close>

type_synonym exn = string

text \<open>\<^verbatim>\<open>pkg['ember-addon']\<close>: the optional \<^verbatim>\<open>main\<close>, and the names in \<^verbatim>\<open>before\<close> and
  \<^verbatim>\<open>after\<close> (a missing list is the empty list).\<close>

record emberAddonConfig =
  ea_main :: "string option"
  ea_before :: "name list"
  ea_after :: "name list"

record pkg =
  pkg_main :: "string option"
  ember_addon :: "emberAddonConfig option"

record addonInfo =
  info_name :: string
  info_path :: string
  info_pkg :: pkg

text \<open>The \<^verbatim>\<open>addonPackages\<close> object: its entries in the order \<^verbatim>\<open>Object.keys\<close> lists them
  (the keys of an object are pairwise different).\<close>

type_synonym addonPackages = "(name \<times> addonInfo) list"

text \<open>The parent: its \<^verbatim>\<open>name\<close> is a field or a getter, its \<^verbatim>\<open>ui\<close> is there or not.\<close>

datatype nameProp = NameField string | NameGetter string

record parent =
  parent_name :: nameProp
  parent_ui :: bool

text \<open>A constructor function: who it is, what its prototype holds for \<^verbatim>\<open>root\<close> and
  \<^verbatim>\<open>pkg\<close>, and the \<^verbatim>\<open>_meta_\<close> record (wall-clock durations are not modelled).\<close>

record addonMeta =
  modulePath :: string
  lookupDuration :: nat

record ctor =
  ctor_ident :: string
  proto_root :: "string option"
  proto_pkg :: "pkg option"
  ctor_meta :: "addonMeta option"

text \<open>A module that is a plain object: its own \<^verbatim>\<open>root\<close> and \<^verbatim>\<open>pkg\<close> properties, if it
  has them.\<close>

record declared =
  decl_ident :: string
  decl_root :: "string option"
  decl_pkg :: "pkg option"

datatype addonModule = FunctionModule ctor | ObjectModule declared

text \<open>An addon instance, as far as the function reads and writes it.\<close>

record addon =
  addon_ident :: string
  has_initializeAddons :: bool
  addon_addons :: "string list option"
  addon_constructor :: "ctor option"

text \<open>
  What the function calls and does not define: \<^verbatim>\<open>path.extname\<close>, \<^verbatim>\<open>path.join\<close>,
  \<^verbatim>\<open>path.dirname\<close>, \<^verbatim>\<open>fs.realpathSync\<close>, \<^verbatim>\<open>require\<close>, \<^verbatim>\<open>Addon.extend\<close> of
  \<^verbatim>\<open>./addon\<close>, the call \<^verbatim>\<open>new AddonConstructor(parent, project)\<close> and the instance's
  \<^verbatim>\<open>initializeAddons()\<close>. Each call that can throw returns \<open>Inl\<close> of what it throws.
\<close>

record env =
  path_extname :: "string \<Rightarrow> string"
  path_join :: "string \<Rightarrow> string \<Rightarrow> string"
  path_dirname :: "string \<Rightarrow> string"
  fs_realpathSync :: "string \<Rightarrow> exn + string"
  require_module :: "string \<Rightarrow> exn + addonModule"
  addon_extend :: "declared \<Rightarrow> ctor"
  construct :: "ctor \<Rightarrow> parent \<Rightarrow> string option \<Rightarrow> exn + addon"
  initializeAddons :: "addon \<Rightarrow> exn + addon"

text \<open>How a call ends when it does not return: a \<^verbatim>\<open>TypeError\<close> of the language, the cycle
  error of the ordering graph, the \<^verbatim>\<open>SilentError\<close> of line 118 with its message, or what a
  callee threw, passed on unchanged.\<close>

datatype error = TypeError | CycleError name | SilentError string | Thrown exn

text \<open>The calls to the outside, in the order they happen. Logging and the heimdall tokens
  do not change what the function does and are left out.\<close>

datatype event =
    NewDAGMap
  | RealpathSync string
  | Require string
  | Constructed name
  | ConstructorThrew name exn
  | WriteError exn
  | InitializeAddons name

record world =
  packages :: addonPackages
  trace :: "event list"

section \<open>The ordering graph\<close>

text \<open>
  The class \<^verbatim>\<open>DAGMap\<close> of the package \<^verbatim>\<open>dag-map\<close>, which \<^verbatim>\<open>instantiateAddons\<close>
  imports (line 9), is not part of the sources at hand. Every definition of this section
  is written from section 4.1 of the specification, the Ordering Graph, and says so.
\<close>

text \<open>Modelled from the spec: the state of \<^verbatim>\<open>DAGMap\<close> (missing from the sources). The
  nodes with their payloads, in the order they were first added, and the edges; an edge
  \<open>(a, b)\<close> says that \<open>a\<close> must precede \<open>b\<close>. A node without payload is a name that was
  only referenced in a constraint.\<close>

record 'a dag =
  vertices :: "(name \<times> 'a option) list"
  edges :: "(name \<times> name) list"

text \<open>Modelled from the spec: \<^verbatim>\<open>new DAGMap()\<close> (missing from the sources), the graph
  without nodes.\<close>

definition empty_dag :: "'a dag" where
  "empty_dag = \<lparr>vertices = [], edges = []\<rparr>"

text \<open>Modelled from the spec: how \<^verbatim>\<open>DAGMap\<close> (missing from the sources) comes to know a
  name. A name that is new becomes the last node and has no payload yet.\<close>

definition touch :: "name \<Rightarrow> 'a dag \<Rightarrow> 'a dag" where
  "touch k g = (if k \<in> set (map fst (vertices g)) then g
                else g\<lparr>vertices := vertices g @ [(k, None)]\<rparr>)"

text \<open>Modelled from the spec: the payload that \<^verbatim>\<open>DAGMap.add\<close> (missing from the sources)
  registers for a node.\<close>

definition set_val :: "name \<Rightarrow> 'a \<Rightarrow> 'a dag \<Rightarrow> 'a dag" where
  "set_val k v g =
     g\<lparr>vertices := map (\<lambda>(k', v'). if k' = k then (k', Some v) else (k', v')) (vertices g)\<rparr>"

text \<open>Modelled from the spec: one constraint recorded by \<^verbatim>\<open>DAGMap.add\<close> (missing from
  the sources), the edge from \<open>a\<close> to \<open>b\<close>; both names are nodes afterwards.\<close>

definition add_edge :: "name \<Rightarrow> name \<Rightarrow> 'a dag \<Rightarrow> 'a dag" where
  "add_edge a b g = (touch b (touch a g))\<lparr>edges := edges g @ [(a, b)]\<rparr>"

text \<open>Modelled from the spec: \<^verbatim>\<open>DAGMap.add(name, payload, beforeNames, afterNames)\<close>
  (missing from the sources). It registers the node; each \<^verbatim>\<open>before\<close> constraint from A
  to B is an edge from A to B, each \<^verbatim>\<open>after\<close> constraint from A to B an edge from B to
  A.\<close>

definition dag_add :: "name \<Rightarrow> 'a \<Rightarrow> name list \<Rightarrow> name list \<Rightarrow> 'a dag \<Rightarrow> 'a dag" where
  "dag_add k v beforeNames afterNames g =
     fold (\<lambda>a. add_edge a k) afterNames
       (fold (\<lambda>b. add_edge k b) beforeNames (set_val k v (touch k g)))"

text \<open>Modelled from the spec: the test "no unresolved predecessors" of the resolver of
  \<^verbatim>\<open>DAGMap\<close> (missing from the sources). Among the nodes that still wait to be emitted, a
  node is ready when none of its predecessors waits.\<close>

definition ready :: "(name \<times> name) list \<Rightarrow> name list \<Rightarrow> name \<Rightarrow> bool" where
  "ready es waiting v = (filter (\<lambda>(a, b). b = v \<and> a \<in> set waiting) es = [])"

text \<open>Modelled from the spec: the name a \<open>CycleError\<close> of \<^verbatim>\<open>DAGMap\<close> (missing from the
  sources) identifies, "at least one name in the cycle". When no waiting node is ready,
  each has a waiting predecessor; from the first waiting node, stepping to a waiting
  predecessor once per waiting node ends on a cycle.\<close>

definition blocker :: "(name \<times> name) list \<Rightarrow> name list \<Rightarrow> name \<Rightarrow> name" where
  "blocker es waiting v =
     (case filter (\<lambda>(a, b). b = v \<and> a \<in> set waiting) es of [] \<Rightarrow> v | (a, b) # rest \<Rightarrow> a)"

definition cycle_member :: "(name \<times> name) list \<Rightarrow> name list \<Rightarrow> name" where
  "cycle_member es waiting =
     (case waiting of [] \<Rightarrow> [] | v # vs \<Rightarrow> (blocker es waiting ^^ length waiting) v)"

text \<open>Modelled from the spec: the deterministic topological sort of the resolver of
  \<^verbatim>\<open>DAGMap\<close> (missing from the sources). Nodes with no unresolved predecessors are
  emitted in the order they were first added; when nodes are left and none is ready, the
  resolution fails with a \<open>CycleError\<close> and returns no part of the order.\<close>

function kahn :: "(name \<times> name) list \<Rightarrow> name list \<Rightarrow> error + name list" where
  "kahn es waiting =
     (if waiting = [] then Inr []
      else case List.find (ready es waiting) waiting of
             None \<Rightarrow> Inl (CycleError (cycle_member es waiting))
           | Some v \<Rightarrow> (case kahn es (remove1 v waiting) of
                          Inl e \<Rightarrow> Inl e
                        | Inr vs \<Rightarrow> Inr (v # vs)))"
  by pat_completeness auto
termination
proof (relation "measure (\<lambda>(es, waiting). length waiting)")
  show "wf (measure (\<lambda>(es, waiting). length waiting))" by simp
next
  fix es :: "(name \<times> name) list" and waiting :: "name list" and v
  assume "waiting \<noteq> []" and "List.find (ready es waiting) waiting = Some v"
  then have "v \<in> set waiting"
    by (auto simp: find_Some_iff)
  then show "((es, remove1 v waiting), (es, waiting)) \<in> measure (\<lambda>(es, waiting). length waiting)"
    using length_pos_if_in_set [of v waiting] by (simp add: length_remove1)
qed

declare kahn.simps [simp del]

text \<open>Modelled from the spec: the payload of a name in \<^verbatim>\<open>DAGMap\<close> (missing from the
  sources), absent for a name that was never added with one.\<close>

definition payload :: "'a dag \<Rightarrow> name \<Rightarrow> 'a option" where
  "payload g k = (case map_of (vertices g) k of None \<Rightarrow> None | Some v \<Rightarrow> v)"

text \<open>Modelled from the spec: \<^verbatim>\<open>resolve()\<close>, which \<^verbatim>\<open>DAGMap.each\<close> (missing from the
  sources) walks: the sequence of names with their payloads in one topological order, or
  the \<open>CycleError\<close>.\<close>

definition dag_resolve :: "'a dag \<Rightarrow> error + (name \<times> 'a option) list" where
  "dag_resolve g =
     (case kahn (edges g) (map fst (vertices g)) of
        Inl e \<Rightarrow> Inl e
      | Inr ks \<Rightarrow> Inr (map (\<lambda>k. (k, payload g k)) ks))"

section \<open>The entry point of an addon\<close>

text \<open>JavaScript's \<^verbatim>\<open>a || b\<close> on a string that may be missing: \<open>a\<close> when it is truthy.\<close>

definition truthy :: "string option \<Rightarrow> bool" where
  "truthy v = (case v of None \<Rightarrow> False | Some s \<Rightarrow> s \<noteq> [])"

definition js_or :: "string option \<Rightarrow> string option \<Rightarrow> string option" where
  "js_or a b = (if truthy a then a else b)"

text \<open>Line 71: \<^verbatim>\<open>(pkg['ember-addon'] && pkg['ember-addon'].main) || pkg['main']\<close>.\<close>

definition selected_main :: "pkg \<Rightarrow> string option" where
  "selected_main p =
     js_or (case ember_addon p of None \<Rightarrow> None | Some c \<Rightarrow> ea_main c) (pkg_main p)"

text \<open>Lines 73 to 77.\<close>

definition entry_main :: "env \<Rightarrow> pkg \<Rightarrow> string" where
  "entry_main e p =
     (case selected_main p of
        None \<Rightarrow> ''index.js''
      | Some m \<Rightarrow>
          if m = [] \<or> m = ''.'' \<or> m = ''./'' then ''index.js''
          else if path_extname e m = [] then m @ ''.js''
          else m)"

text \<open>Line 82.\<close>

definition mainPath :: "env \<Rightarrow> addonInfo \<Rightarrow> string" where
  "mainPath e info = path_join e (info_path info) (entry_main e (info_pkg info))"

section \<open>The constructor of an addon\<close>

text \<open>Lines 93 to 102: a function is used as it is, with \<^verbatim>\<open>prototype.root\<close> and
  \<^verbatim>\<open>prototype.pkg\<close> filled in by \<^verbatim>\<open>||\<close>; an object is merged over the defaults by
  \<^verbatim>\<open>Object.assign\<close> and handed to \<^verbatim>\<open>Addon.extend\<close>.\<close>

definition addonConstructor :: "env \<Rightarrow> addonModule \<Rightarrow> string \<Rightarrow> pkg \<Rightarrow> ctor" where
  "addonConstructor e addonModule mainDir p =
     (case addonModule of
        FunctionModule f \<Rightarrow>
          f\<lparr>proto_root := js_or (proto_root f) (Some mainDir),
            proto_pkg := (case proto_pkg f of None \<Rightarrow> Some p | Some q \<Rightarrow> Some q)\<rparr>
      | ObjectModule d \<Rightarrow>
          addon_extend e
            (d\<lparr>decl_root := (case decl_root d of None \<Rightarrow> Some mainDir | Some r \<Rightarrow> Some r),
               decl_pkg := (case decl_pkg d of None \<Rightarrow> Some p | Some q \<Rightarrow> Some q)\<rparr>))"

section \<open>Instantiation\<close>

text \<open>Line 29: the name of the parent, read from the field or by calling the getter. It
  is used for logging only.\<close>

definition parentName :: "parent \<Rightarrow> string" where
  "parentName p = (case parent_name p of NameField s \<Rightarrow> s | NameGetter s \<Rightarrow> s)"

text \<open>A call to the outside is appended to the list of calls.\<close>

definition emit :: "event \<Rightarrow> world \<Rightarrow> world" where
  "emit ev w = w\<lparr>trace := trace w @ [ev]\<rparr>"

text \<open>Line 80, \<^verbatim>\<open>addonInfo.pkg.main = main\<close>: the descriptor stored under the key is
  written.\<close>

definition write_main :: "name \<Rightarrow> string \<Rightarrow> addonPackages \<Rightarrow> addonPackages" where
  "write_main key m ps =
     map (\<lambda>(k, i). if k = key
                    then (k, i\<lparr>info_pkg := (info_pkg i)\<lparr>pkg_main := Some m\<rparr>\<rparr>)
                    else (k, i)) ps"

definition constructorMessage :: "addonInfo \<Rightarrow> string" where
  "constructorMessage info =
     ''An error occurred in the constructor for '' @ info_name info @ '' at '' @ info_path info"

text \<open>The body of the callback of \<^verbatim>\<open>graph.each\<close> for a node with a payload, lines 55 to
  131. The test of line 85 has an empty body.\<close>

definition initializeAddon ::
  "env \<Rightarrow> parent \<Rightarrow> string option \<Rightarrow> name \<Rightarrow> addonInfo \<Rightarrow> world \<Rightarrow> (error + addon) \<times> world" where
  "initializeAddon e par project key info w =
     (let m = entry_main e (info_pkg info);
          w1 = w\<lparr>packages := write_main key m (packages w)\<rparr>;
          p = (info_pkg info)\<lparr>pkg_main := Some m\<rparr>;
          mp = path_join e (info_path info) m;
          w2 = emit (RealpathSync mp) w1
      in case fs_realpathSync e mp of
           Inl x \<Rightarrow> (Inl (Thrown x), w2)
         | Inr mainRealPath \<Rightarrow>
             (let w3 = emit (Require mainRealPath) w2
              in case require_module e mainRealPath of
                   Inl x \<Rightarrow> (Inl (Thrown x), w3)
                 | Inr addonModule \<Rightarrow>
                     (let mainDir = path_dirname e mainRealPath;
                          c = (addonConstructor e addonModule mainDir p)
                                \<lparr>ctor_meta := Some \<lparr>modulePath = mainRealPath, lookupDuration = 0\<rparr>\<rparr>
                      in case construct e c par project of
                           Inl x \<Rightarrow>
                             (Inl (SilentError (constructorMessage info)),
                              (if parent_ui par then emit (WriteError x) else id)
                                (emit (ConstructorThrew key x) w3))
                         | Inr a \<Rightarrow>
                             (let w4 = emit (Constructed key) w3
                              in if has_initializeAddons a
                                 then (case initializeAddons e a of
                                         Inl x \<Rightarrow> (Inl (Thrown x), emit (InitializeAddons key) w4)
                                       | Inr a' \<Rightarrow>
                                           (Inr (a'\<lparr>addon_constructor := Some c\<rparr>),
                                            emit (InitializeAddons key) w4))
                                 else (Inr (a\<lparr>addon_addons := Some [], addon_constructor := Some c\<rparr>),
                                       w4)))))"

text \<open>\<^verbatim>\<open>graph.each\<close> over the resolved order: a node without a payload is skipped (line
  54), the first failure ends the call.\<close>

fun eachAddon ::
  "env \<Rightarrow> parent \<Rightarrow> string option \<Rightarrow> (name \<times> addonInfo option) list \<Rightarrow> addon list \<Rightarrow> world
     \<Rightarrow> (error + addon list) \<times> world" where
  "eachAddon e par project [] addons w = (Inr addons, w)"
| "eachAddon e par project ((key, None) # rest) addons w = eachAddon e par project rest addons w"
| "eachAddon e par project ((key, Some info) # rest) addons w =
     (case initializeAddon e par project key info w of
        (Inl x, w') \<Rightarrow> (Inl x, w')
      | (Inr a, w') \<Rightarrow> eachAddon e par project rest (addons @ [a]) w')"

text \<open>Lines 45 to 50: reading \<^verbatim>\<open>emberAddonConfig.before\<close> of a package without an
  \<^verbatim>\<open>ember-addon\<close> entry is a \<^verbatim>\<open>TypeError\<close>.\<close>

fun buildGraph :: "addonPackages \<Rightarrow> addonInfo dag \<Rightarrow> error + addonInfo dag" where
  "buildGraph [] g = Inr g"
| "buildGraph ((n, info) # rest) g =
     (case ember_addon (info_pkg info) of
        None \<Rightarrow> Inl TypeError
      | Some c \<Rightarrow> buildGraph rest (dag_add n info (ea_before c) (ea_after c) g))"

text \<open>The order the instances are built in: the graph of all descriptors, resolved.\<close>

definition linearOrder :: "addonPackages \<Rightarrow> error + (name \<times> addonInfo option) list" where
  "linearOrder ps =
     (case buildGraph ps empty_dag of Inl x \<Rightarrow> Inl x | Inr g \<Rightarrow> dag_resolve g)"

text \<open>\<^verbatim>\<open>instantiateAddons\<close>. The argument \<^verbatim>\<open>addonPackages\<close> may be missing
  (\<^verbatim>\<open>addonPackages || {}\<close>, line 33).\<close>

definition instantiateAddons ::
  "env \<Rightarrow> parent \<Rightarrow> string option \<Rightarrow> addonPackages option \<Rightarrow> (error + addon list) \<times> world" where
  "instantiateAddons e par project addonPackages =
     (let ps = (case addonPackages of None \<Rightarrow> [] | Some ps \<Rightarrow> ps);
          addonNames = map fst ps
      in if length addonNames = 0 then (Inr [], \<lparr>packages = ps, trace = []\<rparr>)
         else (let w = \<lparr>packages = ps, trace = [NewDAGMap]\<rparr>
               in case linearOrder ps of
                    Inl x \<Rightarrow> (Inl x, w)
                  | Inr order \<Rightarrow> eachAddon e par project order [] w))"

section \<open>The entry point, in the words of the specification\<close>

text \<open>
  Section 4.2 of the specification, to be compared with \<open>mainPath\<close>: the \<^verbatim>\<open>main\<close> of the
  ordering configuration, if present, takes precedence over the top-level \<^verbatim>\<open>main\<close>; with
  no \<^verbatim>\<open>main\<close>, or one that names the current directory, the entry point is \<^verbatim>\<open>index\<close>
  plus the module-file extension; a \<^verbatim>\<open>main\<close> without extension gets the extension; the
  result is joined with the location. A \<^verbatim>\<open>main\<close> is present when the property is there
  and is not the empty string.
\<close>

definition module_extension :: string where
  "module_extension = ''.js''"

fun present_main :: "string option \<Rightarrow> string option" where
  "present_main None = None"
| "present_main (Some s) = (if s = [] then None else Some s)"

fun spec_selected :: "string option \<Rightarrow> string option \<Rightarrow> string option" where
  "spec_selected (Some config_main) top_main = Some config_main"
| "spec_selected None top_main = top_main"

fun spec_entry :: "env \<Rightarrow> string option \<Rightarrow> string" where
  "spec_entry e None = ''index'' @ module_extension"
| "spec_entry e (Some m) =
     (if m = ''.'' then ''index'' @ module_extension
      else if m = ''./'' then ''index'' @ module_extension
      else if path_extname e m = [] then m @ module_extension
      else m)"

definition spec_entry_point :: "env \<Rightarrow> addonInfo \<Rightarrow> string" where
  "spec_entry_point e info =
     path_join e (info_path info)
       (spec_entry e
          (spec_selected
             (present_main (case ember_addon (info_pkg info) of None \<Rightarrow> None | Some c \<Rightarrow> ea_main c))
             (present_main (pkg_main (info_pkg info)))))"

section \<open>Notions the properties are stated with\<close>

text \<open>What the error sink of the parent received, and which constructors threw what, in
  the order of the calls.\<close>

fun written :: "event list \<Rightarrow> exn list" where
  "written [] = []"
| "written (WriteError x # evs) = x # written evs"
| "written (ev # evs) = written evs"

fun constructor_throws :: "event list \<Rightarrow> (name \<times> exn) list" where
  "constructor_throws [] = []"
| "constructor_throws (ConstructorThrew n x # evs) = (n, x) # constructor_throws evs"
| "constructor_throws (ev # evs) = constructor_throws evs"

text \<open>The keys whose constructor was called and returned, in the order of the calls.\<close>

fun constructed :: "event list \<Rightarrow> name list" where
  "constructed [] = []"
| "constructed (Constructed n # evs) = n # constructed evs"
| "constructed (ev # evs) = constructed evs"

text \<open>The registered constraints of a descriptor map, as pairs \<open>(a, b)\<close> for "\<open>a\<close> before
  \<open>b\<close>": \<open>n\<close> before each name of its \<^verbatim>\<open>before\<close> list, each name of its \<^verbatim>\<open>after\<close> list
  before \<open>n\<close>.\<close>

definition constraints_of :: "name \<Rightarrow> addonInfo \<Rightarrow> (name \<times> name) list" where
  "constraints_of n info =
     (case ember_addon (info_pkg info) of
        None \<Rightarrow> []
      | Some c \<Rightarrow> map (\<lambda>b. (n, b)) (ea_before c) @ map (\<lambda>a. (a, n)) (ea_after c))"

definition constraints :: "addonPackages \<Rightarrow> (name \<times> name) list" where
  "constraints ps = concat (map (\<lambda>(n, info). constraints_of n info) ps)"

definition has_config :: "name \<times> addonInfo \<Rightarrow> bool" where
  "has_config entry = (ember_addon (info_pkg (snd entry)) \<noteq> None)"

text \<open>\<open>a\<close> occurs in the list and \<open>b\<close> occurs after the first \<open>a\<close>.\<close>

definition precedes :: "'a \<Rightarrow> 'a \<Rightarrow> 'a list \<Rightarrow> bool" where
  "precedes a b xs = (b \<in> set (tl (dropWhile (\<lambda>x. x \<noteq> a) xs)))"

text \<open>The order in which the names of a descriptor map are first added to the graph:
  descriptor by descriptor, its key, then the names of its \<^verbatim>\<open>before\<close> list, then those of
  its \<^verbatim>\<open>after\<close> list, each name where it is mentioned first.\<close>

definition add_new :: "name \<Rightarrow> name list \<Rightarrow> name list" where
  "add_new k xs = (if k \<in> set xs then xs else xs @ [k])"

definition mentions_of :: "name \<Rightarrow> addonInfo \<Rightarrow> name list" where
  "mentions_of n info =
     n # (case ember_addon (info_pkg info) of None \<Rightarrow> [] | Some c \<Rightarrow> ea_before c @ ea_after c)"

definition firstAdded :: "addonPackages \<Rightarrow> name list" where
  "firstAdded ps = fold add_new (concat (map (\<lambda>(n, info). mentions_of n info) ps)) []"

text \<open>The keys of the resolved order that carry a descriptor: the order the instances are
  built in.\<close>

fun with_payload :: "(name \<times> 'a option) list \<Rightarrow> name list" where
  "with_payload [] = []"
| "with_payload ((k, None) # rest) = with_payload rest"
| "with_payload ((k, Some v) # rest) = k # with_payload rest"

text \<open>An entry of the descriptor map after the call, against the entry before it: the
  same key, and a descriptor that is the same or differs by its manifest's \<^verbatim>\<open>main\<close>, now
  the file name of the entry point.\<close>

definition main_rel :: "env \<Rightarrow> name \<times> addonInfo \<Rightarrow> name \<times> addonInfo \<Rightarrow> bool" where
  "main_rel e x y =
     (fst y = fst x \<and>
      (snd y = snd x \<or>
       snd y = (snd x)\<lparr>info_pkg := (info_pkg (snd x))\<lparr>pkg_main := Some (entry_main e (info_pkg (snd x)))\<rparr>\<rparr>))"

text \<open>The names of the resolved order.\<close>

definition orderNames :: "addonPackages \<Rightarrow> error + name list" where
  "orderNames ps = (case linearOrder ps of Inl x \<Rightarrow> Inl x | Inr order \<Rightarrow> Inr (map fst order))"

text \<open>A graph is well formed when no key occurs twice among its vertices and every edge
  joins two of its vertices.\<close>

definition wf_dag :: "'a dag \<Rightarrow> bool" where
  "wf_dag g = (distinct (map fst (vertices g)) \<and>
     (\<forall>(a, b)\<in>set (edges g). a \<in> set (map fst (vertices g)) \<and> b \<in> set (map fst (vertices g))))"

section \<open>Sample inputs\<close>

text \<open>An environment to run the function in: extensions, joins and directories as
  \<^verbatim>\<open>path\<close> computes them on plain relative and absolute names, a file system in which
  every path is its own real path, and three modules.\<close>

definition basename :: "string \<Rightarrow> string" where
  "basename p = rev (takeWhile (\<lambda>c. c \<noteq> CHR ''/'') (rev p))"

definition sample_extname :: "string \<Rightarrow> string" where
  "sample_extname p =
     (let b = basename p; r = takeWhile (\<lambda>c. c \<noteq> CHR ''.'') (rev b)
      in if length r = length b \<or> Suc (length r) = length b then [] else CHR ''.'' # rev r)"

definition sample_join :: "string \<Rightarrow> string \<Rightarrow> string" where
  "sample_join a b = a @ ''/'' @ b"

definition sample_dirname :: "string \<Rightarrow> string" where
  "sample_dirname p = rev (tl (dropWhile (\<lambda>c. c \<noteq> CHR ''/'') (rev p)))"

definition plain_ctor :: "string \<Rightarrow> ctor" where
  "plain_ctor i = \<lparr>ctor_ident = i, proto_root = None, proto_pkg = None, ctor_meta = None\<rparr>"

definition sample_require :: "string \<Rightarrow> exn + addonModule" where
  "sample_require p =
     (if p = ''/addons/a/index.js'' then Inr (FunctionModule (plain_ctor ''A''))
      else if p = ''/addons/b/lib/foo.js'' then Inr (FunctionModule (plain_ctor ''B''))
      else if p = ''/addons/bad/index.js'' then Inr (FunctionModule (plain_ctor ''Bad''))
      else Inl ''MODULE_NOT_FOUND'')"

definition sample_construct :: "ctor \<Rightarrow> parent \<Rightarrow> string option \<Rightarrow> exn + addon" where
  "sample_construct c par project =
     (if ctor_ident c = ''Bad'' then Inl ''boom''
      else Inr \<lparr>addon_ident = ctor_ident c, has_initializeAddons = False,
                addon_addons = None, addon_constructor = None\<rparr>)"

definition sample_env :: env where
  "sample_env =
     \<lparr>path_extname = sample_extname, path_join = sample_join, path_dirname = sample_dirname,
      fs_realpathSync = (\<lambda>p. Inr p), require_module = sample_require,
      addon_extend = (\<lambda>d. plain_ctor (decl_ident d)),
      construct = sample_construct, initializeAddons = (\<lambda>a. Inr a)\<rparr>"

text \<open>The same environment over a file system in which no path exists.\<close>

definition missing_env :: env where
  "missing_env = sample_env\<lparr>fs_realpathSync := (\<lambda>p. Inl ''ENOENT'')\<rparr>"

text \<open>The same environment with a resolver that returns the empty path.\<close>

definition falsy_env :: env where
  "falsy_env = sample_env\<lparr>fs_realpathSync := (\<lambda>p. Inr [])\<rparr>"

definition sample_parent :: parent where
  "sample_parent = \<lparr>parent_name = NameField ''app'', parent_ui = True\<rparr>"

definition descriptor :: "string \<Rightarrow> string \<Rightarrow> string option \<Rightarrow> emberAddonConfig option \<Rightarrow> addonInfo" where
  "descriptor n p m c =
     \<lparr>info_name = n, info_path = p, info_pkg = \<lparr>pkg_main = m, ember_addon = c\<rparr>\<rparr>"

definition config :: "string option \<Rightarrow> name list \<Rightarrow> name list \<Rightarrow> emberAddonConfig" where
  "config m bs as = \<lparr>ea_main = m, ea_before = bs, ea_after = as\<rparr>"

text \<open>Two descriptors, the second to be built after the first; its constructor throws.\<close>

definition failing_sample :: addonPackages where
  "failing_sample =
     [(''a'', descriptor ''a'' ''/addons/a'' None (Some (config None [] []))),
      (''bad'', descriptor ''bad'' ''/addons/bad'' None (Some (config None [] [''a''])))]"

text \<open>The examples of the specification: \<open>b\<close> after \<open>a\<close>; \<open>b\<close> before \<open>a\<close>; and two
  descriptors that each want to come before the other.\<close>

definition ordered_sample :: addonPackages where
  "ordered_sample =
     [(''b'', descriptor ''b'' ''/addons/b'' (Some ''lib/foo'') (Some (config None [] [''a'']))),
      (''a'', descriptor ''a'' ''/addons/a'' None (Some (config None [] [])))]"

definition before_sample :: addonPackages where
  "before_sample =
     [(''b'', descriptor ''b'' ''/addons/b'' (Some ''lib/foo'') (Some (config None [''a''] []))),
      (''a'', descriptor ''a'' ''/addons/a'' None (Some (config None [] [])))]"

definition cyclic_sample :: addonPackages where
  "cyclic_sample =
     [(''a'', descriptor ''a'' ''/addons/a'' None (Some (config None [''b''] []))),
      (''b'', descriptor ''b'' ''/addons/b'' (Some ''lib/foo'') (Some (config None [''a''] [])))]"

text \<open>Two modules that set their own root to the empty string, one a function and one a
  plain object, in an environment whose \<^verbatim>\<open>Addon.extend\<close> keeps the root and the manifest
  it is handed.\<close>

definition rooted_require :: "string \<Rightarrow> exn + addonModule" where
  "rooted_require p =
     (if p = ''/addons/f/index.js''
      then Inr (FunctionModule ((plain_ctor ''F'')\<lparr>proto_root := Some []\<rparr>))
      else if p = ''/addons/o/index.js''
      then Inr (ObjectModule \<lparr>decl_ident = ''O'', decl_root = Some [], decl_pkg = None\<rparr>)
      else Inl ''MODULE_NOT_FOUND'')"

definition rooted_env :: env where
  "rooted_env =
     sample_env\<lparr>require_module := rooted_require,
       addon_extend := (\<lambda>d. \<lparr>ctor_ident = decl_ident d, proto_root = decl_root d,
                                proto_pkg = decl_pkg d, ctor_meta = None\<rparr>)\<rparr>"

definition rooted_sample :: addonPackages where
  "rooted_sample =
     [(''f'', descriptor ''f'' ''/addons/f'' None (Some (config None [] []))),
      (''o'', descriptor ''o'' ''/addons/o'' None (Some (config None [] [])))]"

text \<open>What the constructors of the returned instances hold as \<^verbatim>\<open>prototype.root\<close>.\<close>

definition constructor_roots :: "error + addon list \<Rightarrow> error + string option option list" where
  "constructor_roots r =
     (case r of Inl x \<Rightarrow> Inl x
      | Inr addons \<Rightarrow> Inr (map (\<lambda>a. map_option proto_root (addon_constructor a)) addons))"

section \<open>The empty and the missing descriptor map\<close>

text \<open>
  C9. For the empty descriptor mapping the call returns the empty sequence at once: no
  graph is created, nothing is resolved, no path is looked up and no module is loaded (the
  list of calls to the outside is empty), whatever the environment is.
\<close>

theorem instantiateAddons_empty:
  "instantiateAddons e par project (Some []) = (Inr [], \<lparr>packages = [], trace = []\<rparr>)"
  by (simp add: instantiateAddons_def)

text \<open>
  C10. A missing descriptor mapping is treated as the empty one: the call does not fail and
  returns the empty sequence.
\<close>

theorem instantiateAddons_absent:
  "instantiateAddons e par project None = instantiateAddons e par project (Some [])
   \<and> fst (instantiateAddons e par project None) = Inr []"
  by (simp add: instantiateAddons_def)

section \<open>The entry point\<close>

text \<open>
  C6. The entry point the code computes (lines 71 to 82) is the one the specification
  describes: the \<^verbatim>\<open>main\<close> of the \<^verbatim>\<open>ember-addon\<close> configuration before the top-level
  \<^verbatim>\<open>main\<close>; \<^verbatim>\<open>index.js\<close> when the selected \<^verbatim>\<open>main\<close> is absent, \<^verbatim>\<open>.\<close> or \<^verbatim>\<open>./\<close>;
  \<^verbatim>\<open>.js\<close> appended when it has no extension; the result joined with the location of the
  descriptor. A \<^verbatim>\<open>main\<close> that is the empty string counts as absent, at both levels.
  This is the path the loop hands to \<^verbatim>\<open>fs.realpathSync\<close> for the descriptor.
\<close>

theorem entry_point_as_specified:
  "mainPath e info = spec_entry_point e info
   \<and> (\<exists>evs. trace (snd (initializeAddon e par project key info w))
                = trace w @ RealpathSync (spec_entry_point e info) # evs)"
proof
  show eq: "mainPath e info = spec_entry_point e info"
    by (cases "pkg_main (info_pkg info)"; cases "ember_addon (info_pkg info)")
       (auto simp: mainPath_def spec_entry_point_def entry_main_def selected_main_def js_or_def
          truthy_def module_extension_def split: option.splits)
  have "\<exists>evs. trace (snd (initializeAddon e par project key info w))
                = trace w @ RealpathSync (mainPath e info) # evs"
    by (auto simp: initializeAddon_def mainPath_def Let_def emit_def split: sum.splits)
  with eq show "\<exists>evs. trace (snd (initializeAddon e par project key info w))
                = trace w @ RealpathSync (spec_entry_point e info) # evs"
    by simp
qed

text \<open>The two examples of the specification, in the sample environment.\<close>

lemma entry_point_lib_foo:
  "mainPath sample_env (descriptor ''b'' ''/addons/b'' (Some ''lib/foo'') None) = ''/addons/b/lib/foo.js''"
  by (simp add: mainPath_def entry_main_def selected_main_def js_or_def truthy_def descriptor_def
      sample_env_def sample_extname_def basename_def sample_join_def)

lemma entry_point_dot:
  "mainPath sample_env (descriptor ''b'' ''/addons/b'' (Some ''.'') None) = ''/addons/b/index.js''"
  by (simp add: mainPath_def entry_main_def selected_main_def js_or_def truthy_def descriptor_def
      sample_env_def sample_extname_def basename_def sample_join_def)

section \<open>The constructor of a module that is a function\<close>

text \<open>
  The defaults of a function module, inside the callback (lines 83 to 131). When the real
  path \<open>rp\<close> of the entry point is found, the module loaded from it is a function \<open>f\<close>
  and the instance \<open>a\<close> is built, the constructor stored on the instance is \<open>f\<close> itself;
  a non-empty \<^verbatim>\<open>prototype.root\<close> and a \<^verbatim>\<open>prototype.pkg\<close> of its own are kept; a missing
  root becomes the directory of \<open>rp\<close> (line 91) and a missing manifest becomes the
  manifest of the descriptor, which by then carries the \<^verbatim>\<open>main\<close> of line 80.
\<close>

theorem function_module_defaults_in_loop:
  assumes "fs_realpathSync e (mainPath e info) = Inr rp"
      and "require_module e rp = Inr (FunctionModule f)"
      and "initializeAddon e par project key info w = (Inr a, w')"
  shows "\<exists>c. addon_constructor a = Some c \<and> ctor_ident c = ctor_ident f
       \<and> (\<forall>r. proto_root f = Some r \<and> r \<noteq> [] \<longrightarrow> proto_root c = Some r)
       \<and> (proto_root f = None \<longrightarrow> proto_root c = Some (path_dirname e rp))
       \<and> (\<forall>q. proto_pkg f = Some q \<longrightarrow> proto_pkg c = Some q)
       \<and> (proto_pkg f = None \<longrightarrow>
            proto_pkg c = Some ((info_pkg info)\<lparr>pkg_main := Some (entry_main e (info_pkg info))\<rparr>))"
  using assms
  by (auto simp: initializeAddon_def mainPath_def addonConstructor_def js_or_def truthy_def
      Let_def split: sum.splits if_splits)

theorem function_module_defaults_in_loop_witness:
  "fs_realpathSync sample_env (mainPath sample_env (descriptor ''a'' ''/addons/a'' None None))
     = Inr ''/addons/a/index.js''
   \<and> require_module sample_env ''/addons/a/index.js'' = Inr (FunctionModule (plain_ctor ''A''))
   \<and> (\<exists>a w'. initializeAddon sample_env sample_parent None ''a''
                 (descriptor ''a'' ''/addons/a'' None None) \<lparr>packages = [], trace = []\<rparr> = (Inr a, w')
         \<and> (\<exists>c. addon_constructor a = Some c \<and> proto_root c = Some ''/addons/a''
               \<and> proto_pkg c = Some \<lparr>pkg_main = Some ''index.js'', ember_addon = None\<rparr>))"
proof -
  let ?info = "descriptor ''a'' ''/addons/a'' None None"
  let ?run = "initializeAddon sample_env sample_parent None ''a'' ?info \<lparr>packages = [], trace = []\<rparr>"
  have h1: "fs_realpathSync sample_env (mainPath sample_env ?info) = Inr ''/addons/a/index.js''"
    by code_simp
  have h2: "require_module sample_env ''/addons/a/index.js'' = Inr (FunctionModule (plain_ctor ''A''))"
    by code_simp
  have ok: "isl (fst ?run) = False"
    by code_simp
  then obtain a where a: "fst ?run = Inr a"
    by (cases "fst ?run") auto
  then have h3: "?run = (Inr a, snd ?run)"
    by (metis prod.collapse)
  have dir: "path_dirname sample_env ''/addons/a/index.js'' = ''/addons/a''"
    by code_simp
  have man: "(info_pkg ?info)\<lparr>pkg_main := Some (entry_main sample_env (info_pkg ?info))\<rparr>
      = \<lparr>pkg_main = Some ''index.js'', ember_addon = None\<rparr>"
    by code_simp
  have f: "proto_root (plain_ctor ''A'') = None" "proto_pkg (plain_ctor ''A'') = None"
    by (simp_all add: plain_ctor_def)
  from function_module_defaults_in_loop [OF h1 h2 h3] f dir man
  have "\<exists>c. addon_constructor a = Some c \<and> proto_root c = Some ''/addons/a''
         \<and> proto_pkg c = Some \<lparr>pkg_main = Some ''index.js'', ember_addon = None\<rparr>"
    by auto
  with h1 h2 h3 show ?thesis by blast
qed

text \<open>
  C8. The claim fails on the code where the author of a function module set
  \<^verbatim>\<open>prototype.root\<close> to the empty string: the value is falsy, and line 96
  (\<^verbatim>\<open>prototype.root || mainDir\<close>) overwrites it with the directory of the entry point.
  The sibling branch for a plain object (line 101, \<^verbatim>\<open>Object.assign\<close> over the defaults)
  keeps an own root that is the empty string. In one call with one module of each kind,
  the constructor of the first instance has the directory as root, that of the second the
  empty string.
\<close>

theorem empty_root_is_overwritten:
  "constructor_roots (fst (instantiateAddons rooted_env sample_parent None (Some rooted_sample)))
   = Inr [Some (Some ''/addons/f''), Some (Some [])]"
  by code_simp

section \<open>Descriptors without an ordering configuration\<close>

text \<open>
  C7. A descriptor whose manifest has no \<^verbatim>\<open>ember-addon\<close> entry is not accepted: line 49
  reads \<^verbatim>\<open>before\<close> of \<^verbatim>\<open>undefined\<close>, and the call ends in a \<^verbatim>\<open>TypeError\<close> while the
  graph is built, before any instance is made. (Line 71 guards the same entry with
  \<^verbatim>\<open>&&\<close>.)
\<close>

theorem missing_config_is_type_error:
  "instantiateAddons sample_env sample_parent None
     (Some [(''a'', descriptor ''a'' ''/addons/a'' None None)])
   = (Inl TypeError,
      \<lparr>packages = [(''a'', descriptor ''a'' ''/addons/a'' None None)], trace = [NewDAGMap]\<rparr>)"
  by (simp add: instantiateAddons_def linearOrder_def descriptor_def)

section \<open>A missing entry point\<close>

text \<open>
  C5. When the real path of the entry point cannot be found, the call ends with what
  \<^verbatim>\<open>fs.realpathSync\<close> threw, unchanged: the function raises no error of its own. The test
  of line 85 has an empty body, so a resolver that returns an empty path lets the code go
  on and load it.
\<close>

theorem missing_entry_point_passes_through:
  "fst (instantiateAddons missing_env sample_parent None
     (Some [(''a'', descriptor ''a'' ''/addons/a'' None (Some (config None [] [])))]))
   = Inl (Thrown ''ENOENT'')
   \<and> trace (snd (instantiateAddons falsy_env sample_parent None
     (Some [(''a'', descriptor ''a'' ''/addons/a'' None (Some (config None [] [])))])))
   = [NewDAGMap, RealpathSync ''/addons/a/index.js'', Require []]"
  by code_simp

section \<open>Calls to the outside made by the loop\<close>

lemma written_append: "written (xs @ ys) = written xs @ written ys"
  by (induction xs rule: written.induct) auto

lemma constructor_throws_append:
  "constructor_throws (xs @ ys) = constructor_throws xs @ constructor_throws ys"
  by (induction xs rule: constructor_throws.induct) auto

lemma constructed_append: "constructed (xs @ ys) = constructed xs @ constructed ys"
  by (induction xs rule: constructed.induct) auto

lemma throw_in_trace: "ConstructorThrew n x \<in> set evs \<Longrightarrow> (n, x) \<in> set (constructor_throws evs)"
  by (induction evs rule: constructor_throws.induct) auto

lemma initializeAddon_packages:
  "initializeAddon e par project key info w = (r, w') \<Longrightarrow>
   packages w' = write_main key (entry_main e (info_pkg info)) (packages w)"
  by (auto simp: initializeAddon_def Let_def emit_def split: sum.splits if_splits)

lemma initializeAddon_trace:
  assumes "initializeAddon e par project key info w = (r, w')"
  shows "\<exists>evs. trace w' = trace w @ evs \<and>
           ((constructor_throws evs = [] \<and> written evs = [] \<and> (\<forall>a. r = Inr a \<longrightarrow> constructed evs = [key]))
            \<or> (\<exists>pre x. constructor_throws pre = [] \<and> written pre = [] \<and>
                 evs = pre @ ConstructorThrew key x # (if parent_ui par then [WriteError x] else []) \<and>
                 r = Inl (SilentError (constructorMessage info))))"
  using assms
  apply (simp add: initializeAddon_def Let_def emit_def split: sum.splits if_splits)
  apply auto
  done

lemma initializeAddon_constructed:
  assumes "initializeAddon e par project key info w = (r, w')"
  shows "\<exists>evs. trace w' = trace w @ evs \<and>
           (case r of Inr a \<Rightarrow> constructed evs = [key] | Inl x \<Rightarrow> constructed evs = [] \<or> constructed evs = [key])"
  using assms
  by (auto simp: initializeAddon_def Let_def emit_def split: sum.splits if_splits)

lemma eachAddon_trace:
  assumes "eachAddon e par project order acc w = (r, w')"
  shows "\<exists>evs. trace w' = trace w @ evs \<and>
           ((constructor_throws evs = [] \<and> written evs = [])
            \<or> (\<exists>pre key info x. (key, Some info) \<in> set order \<and>
                 constructor_throws pre = [] \<and> written pre = [] \<and>
                 evs = pre @ ConstructorThrew key x # (if parent_ui par then [WriteError x] else []) \<and>
                 r = Inl (SilentError (constructorMessage info))))"
  using assms
proof (induction e par project order acc w rule: eachAddon.induct)
  case (1 e par project addons w)
  then show ?case by simp
next
  case (2 e par project key rest addons w)
  then show ?case by fastforce
next
  case (3 e par project key info rest addons w)
  obtain r1 w1 where step: "initializeAddon e par project key info w = (r1, w1)"
    by (cases "initializeAddon e par project key info w")
  from initializeAddon_trace [OF step] obtain evs1 where
    t1: "trace w1 = trace w @ evs1" and
    d1: "(constructor_throws evs1 = [] \<and> written evs1 = [] \<and> (\<forall>a. r1 = Inr a \<longrightarrow> constructed evs1 = [key]))
         \<or> (\<exists>pre x. constructor_throws pre = [] \<and> written pre = [] \<and>
               evs1 = pre @ ConstructorThrew key x # (if parent_ui par then [WriteError x] else []) \<and>
               r1 = Inl (SilentError (constructorMessage info)))"
    by blast
  show ?case
  proof (cases r1)
    case (Inl x)
    with step "3.prems" have "r = Inl x" "w' = w1" by auto
    with t1 d1 Inl show ?thesis by fastforce
  next
    case (Inr a)
    with step "3.prems" have rest: "eachAddon e par project rest (addons @ [a]) w1 = (r, w')"
      by simp
    from Inr d1 have q1: "constructor_throws evs1 = []" "written evs1 = []" by auto
    from "3.IH" [OF step [symmetric] Inr rest] obtain evs2 where
      t2: "trace w' = trace w1 @ evs2" and
      d2: "(constructor_throws evs2 = [] \<and> written evs2 = [])
           \<or> (\<exists>pre key info x. (key, Some info) \<in> set rest \<and>
                 constructor_throws pre = [] \<and> written pre = [] \<and>
                 evs2 = pre @ ConstructorThrew key x # (if parent_ui par then [WriteError x] else []) \<and>
                 r = Inl (SilentError (constructorMessage info)))"
      by blast
    from d2 show ?thesis
    proof
      assume "constructor_throws evs2 = [] \<and> written evs2 = []"
      with q1 t1 t2 show ?thesis
        by (intro exI [of _ "evs1 @ evs2"]) (simp add: constructor_throws_append written_append)
    next
      assume "\<exists>pre key info x. (key, Some info) \<in> set rest \<and>
                 constructor_throws pre = [] \<and> written pre = [] \<and>
                 evs2 = pre @ ConstructorThrew key x # (if parent_ui par then [WriteError x] else []) \<and>
                 r = Inl (SilentError (constructorMessage info))"
      then obtain pre k i x where
        h: "(k, Some i) \<in> set rest" "constructor_throws pre = []" "written pre = []"
           "evs2 = pre @ ConstructorThrew k x # (if parent_ui par then [WriteError x] else [])"
           "r = Inl (SilentError (constructorMessage i))"
        by blast
      have "trace w' = trace w @ (evs1 @ pre) @ ConstructorThrew k x # (if parent_ui par then [WriteError x] else [])"
        using t1 t2 h(4) by simp
      moreover have "constructor_throws (evs1 @ pre) = []" "written (evs1 @ pre) = []"
        using q1 h(2,3) by (simp_all add: constructor_throws_append written_append)
      ultimately show ?thesis
        using h(1,5) by (intro exI [of _ "(evs1 @ pre) @ ConstructorThrew k x # (if parent_ui par then [WriteError x] else [])"]) force
    qed
  qed
qed

section \<open>Payloads of the graph come from the descriptor map\<close>

lemma touch_Some: "(k', Some i) \<in> set (vertices (touch k g)) \<longleftrightarrow> (k', Some i) \<in> set (vertices g)"
  by (auto simp: touch_def)

lemma add_edge_Some:
  "(k', Some i) \<in> set (vertices (add_edge a b g)) \<longleftrightarrow> (k', Some i) \<in> set (vertices g)"
  by (auto simp: add_edge_def touch_def)

lemma fold_before_Some:
  "(k', Some i) \<in> set (vertices (fold (\<lambda>b. add_edge k b) bs g)) \<longleftrightarrow> (k', Some i) \<in> set (vertices g)"
  by (induction bs arbitrary: g) (simp_all add: add_edge_Some)

lemma fold_after_Some:
  "(k', Some i) \<in> set (vertices (fold (\<lambda>a. add_edge a k) as g)) \<longleftrightarrow> (k', Some i) \<in> set (vertices g)"
  by (induction as arbitrary: g) (simp_all add: add_edge_Some)

lemma set_val_Some:
  "(k', Some i) \<in> set (vertices (set_val k v g)) \<Longrightarrow>
   (k', Some i) \<in> set (vertices g) \<or> (k' = k \<and> i = v)"
  by (auto simp: set_val_def split: if_splits)

lemma dag_add_Some:
  "(k', Some i) \<in> set (vertices (dag_add k v bs as g)) \<Longrightarrow>
   (k', Some i) \<in> set (vertices g) \<or> (k' = k \<and> i = v)"
  by (auto simp: dag_add_def fold_before_Some fold_after_Some touch_Some dest: set_val_Some)

lemma buildGraph_Some:
  "buildGraph ps g = Inr g' \<Longrightarrow> (k, Some i) \<in> set (vertices g') \<Longrightarrow>
   (k, Some i) \<in> set (vertices g) \<or> (k, i) \<in> set ps"
proof (induction ps g rule: buildGraph.induct)
  case (1 g)
  then show ?case by simp
next
  case (2 n info rest g)
  then obtain c where c: "ember_addon (info_pkg info) = Some c"
    by (cases "ember_addon (info_pkg info)") auto
  with 2 have "(k, Some i) \<in> set (vertices (dag_add n info (ea_before c) (ea_after c) g))
      \<or> (k, i) \<in> set rest"
    by simp
  then show ?case
    by (auto dest: dag_add_Some)
qed

lemma payload_Some: "payload g k = Some i \<Longrightarrow> (k, Some i) \<in> set (vertices g)"
  by (auto simp: payload_def split: option.splits dest: map_of_SomeD)

lemma dag_resolve_Some:
  "dag_resolve g = Inr order \<Longrightarrow> (k, Some i) \<in> set order \<Longrightarrow> (k, Some i) \<in> set (vertices g)"
  by (auto simp: dag_resolve_def split: sum.splits dest: payload_Some [OF sym])

lemma linearOrder_Some:
  "linearOrder ps = Inr order \<Longrightarrow> (k, Some i) \<in> set order \<Longrightarrow> (k, i) \<in> set ps"
  by (auto simp: linearOrder_def empty_dag_def split: sum.splits
      dest!: dag_resolve_Some buildGraph_Some)

section \<open>A constructor that throws\<close>

lemma no_throws_not_in: "constructor_throws evs = [] \<Longrightarrow> ConstructorThrew n x \<notin> set evs"
  using throw_in_trace by fastforce

text \<open>
  C3. When, during a call, the constructor of the plugin stored under \<open>n\<close> throws \<open>x\<close>,
  the whole call fails: the result is the \<^verbatim>\<open>SilentError\<close> whose message names the plugin
  and its location, no sequence of instances is returned, no other constructor threw, and
  if the parent has an error sink, the sink received \<open>x\<close> exactly once, as the last call
  to the outside before the error is raised; without a sink nothing is written.
\<close>

theorem constructor_failure:
  assumes run: "instantiateAddons e par project (Some ps) = (r, w)"
      and thrown: "ConstructorThrew n x \<in> set (trace w)"
  shows "(\<exists>info. (n, info) \<in> set ps \<and> r = Inl (SilentError (constructorMessage info)))
       \<and> constructor_throws (trace w) = [(n, x)]
       \<and> written (trace w) = (if parent_ui par then [x] else [])
       \<and> (\<exists>pre. trace w = pre @ ConstructorThrew n x # (if parent_ui par then [WriteError x] else []))"
proof -
  from run thrown have ne: "ps \<noteq> []"
    by (auto simp: instantiateAddons_def)
  from run thrown ne obtain order where
    order: "linearOrder ps = Inr order" and
    loop: "eachAddon e par project order [] \<lparr>packages = ps, trace = [NewDAGMap]\<rparr> = (r, w)"
    by (cases "linearOrder ps") (auto simp: instantiateAddons_def Let_def)
  from eachAddon_trace [OF loop] obtain evs where
    t0: "trace w = trace \<lparr>packages = ps, trace = [NewDAGMap]\<rparr> @ evs" and
    d: "(constructor_throws evs = [] \<and> written evs = [])
        \<or> (\<exists>pre key info y. (key, Some info) \<in> set order \<and>
              constructor_throws pre = [] \<and> written pre = [] \<and>
              evs = pre @ ConstructorThrew key y # (if parent_ui par then [WriteError y] else []) \<and>
              r = Inl (SilentError (constructorMessage info)))"
    by blast
  from t0 have t: "trace w = [NewDAGMap] @ evs" by simp
  from t thrown have "ConstructorThrew n x \<in> set evs" by simp
  with d no_throws_not_in obtain pre key info y where
    h: "(key, Some info) \<in> set order" "constructor_throws pre = []" "written pre = []"
       "evs = pre @ ConstructorThrew key y # (if parent_ui par then [WriteError y] else [])"
       "r = Inl (SilentError (constructorMessage info))"
    by blast
  from \<open>ConstructorThrew n x \<in> set evs\<close> h(2,4) no_throws_not_in [OF h(2)]
  have same: "key = n" "y = x"
    by (auto split: if_splits)
  from linearOrder_Some [OF order h(1)] same have "(n, info) \<in> set ps" by simp
  moreover have "constructor_throws (trace w) = [(n, x)]"
    using t h(2,4) same by (simp add: constructor_throws_append)
  moreover have "written (trace w) = (if parent_ui par then [x] else [])"
    using t h(3,4) same by (simp add: written_append)
  moreover have "trace w = (NewDAGMap # pre) @ ConstructorThrew n x # (if parent_ui par then [WriteError x] else [])"
    using t h(4) same by simp
  ultimately show ?thesis
    using h(5) by blast
qed

theorem constructor_failure_witness:
  "ConstructorThrew ''bad'' ''boom''
     \<in> set (trace (snd (instantiateAddons sample_env sample_parent None (Some failing_sample))))
   \<and> fst (instantiateAddons sample_env sample_parent None (Some failing_sample))
       = Inl (SilentError ''An error occurred in the constructor for bad at /addons/bad'')
   \<and> written (trace (snd (instantiateAddons sample_env sample_parent None (Some failing_sample))))
       = [''boom'']"
proof -
  have run: "instantiateAddons sample_env sample_parent None (Some failing_sample)
      = (fst (instantiateAddons sample_env sample_parent None (Some failing_sample)),
         snd (instantiateAddons sample_env sample_parent None (Some failing_sample)))"
    by simp
  have thrown: "ConstructorThrew ''bad'' ''boom''
      \<in> set (trace (snd (instantiateAddons sample_env sample_parent None (Some failing_sample))))"
    by code_simp
  have msg: "\<And>info. (''bad'', info) \<in> set failing_sample \<Longrightarrow>
      constructorMessage info = ''An error occurred in the constructor for bad at /addons/bad''"
    by (auto simp: failing_sample_def descriptor_def constructorMessage_def)
  have ui: "parent_ui sample_parent"
    by (simp add: sample_parent_def)
  from constructor_failure [OF run thrown] msg ui thrown show ?thesis
    by auto
qed

section \<open>What the call writes into the descriptors\<close>

lemma write_main_rel:
  assumes d: "distinct (map fst ps)" and mem: "(key, info) \<in> set ps"
      and rel: "list_all2 (main_rel e) ps qs"
  shows "list_all2 (main_rel e) ps (write_main key (entry_main e (info_pkg info)) qs)"
proof -
  have "list_all2 (\<lambda>x y. main_rel e x
          ((\<lambda>(k, i). if k = key
                    then (k, i\<lparr>info_pkg := (info_pkg i)\<lparr>pkg_main := Some (entry_main e (info_pkg info))\<rparr>\<rparr>)
                    else (k, i)) y)) ps qs"
    using rel
  proof (rule list.rel_mono_strong)
    fix x y
    assume x: "x \<in> set ps" and r: "main_rel e x y"
    obtain k i where xi: "x = (k, i)" by (cases x)
    obtain k' i' where yi: "y = (k', i')" by (cases y)
    from r xi yi have k: "k' = k" by (simp add: main_rel_def)
    show "main_rel e x
          ((\<lambda>(k, i). if k = key
                    then (k, i\<lparr>info_pkg := (info_pkg i)\<lparr>pkg_main := Some (entry_main e (info_pkg info))\<rparr>\<rparr>)
                    else (k, i)) y)"
    proof (cases "k = key")
      case True
      with x xi mem d have "i = info"
        by (metis eq_key_imp_eq_value)
      with r xi yi k True show ?thesis
        by (auto simp: main_rel_def)
    next
      case False
      with r xi yi k show ?thesis by (simp add: main_rel_def)
    qed
  qed
  then show ?thesis
    by (simp add: write_main_def list_all2_map2)
qed

lemma eachAddon_packages:
  assumes "eachAddon e par project order acc w = (r, w')"
      and "distinct (map fst ps)"
      and "\<And>k i. (k, Some i) \<in> set order \<Longrightarrow> (k, i) \<in> set ps"
      and "list_all2 (main_rel e) ps (packages w)"
  shows "list_all2 (main_rel e) ps (packages w')"
  using assms
proof (induction e par project order acc w rule: eachAddon.induct)
  case (1 e par project addons w)
  then show ?case by simp
next
  case (2 e par project key rest addons w)
  then show ?case by simp
next
  case (3 e par project key info rest addons w)
  obtain r1 w1 where step: "initializeAddon e par project key info w = (r1, w1)"
    by (cases "initializeAddon e par project key info w")
  have mem: "(key, info) \<in> set ps" using "3.prems"(3) by simp
  have w1: "list_all2 (main_rel e) ps (packages w1)"
    using initializeAddon_packages [OF step] write_main_rel [OF "3.prems"(2) mem "3.prems"(4)]
    by simp
  show ?case
  proof (cases r1)
    case (Inl x)
    with step "3.prems"(1) have "w' = w1" by simp
    with w1 show ?thesis by simp
  next
    case (Inr a)
    with step "3.prems"(1) have rest: "eachAddon e par project rest (addons @ [a]) w1 = (r, w')"
      by simp
    show ?thesis
      using "3.IH" [OF step [symmetric] Inr rest "3.prems"(2) _ w1] "3.prems"(3) by simp
  qed
qed

text \<open>
  C4, as the code has it. The call writes one field of a descriptor, the \<^verbatim>\<open>main\<close> of
  its manifest (line 80): after the call every entry of the descriptor map has its key,
  and its descriptor is either untouched or differs from the one before the call only in
  that \<^verbatim>\<open>main\<close> is the file name of its entry point. Name, location and the ordering
  configuration are never changed. The keys of the map are pairwise different.
\<close>

theorem only_main_is_written:
  assumes "distinct (map fst ps)"
  shows "list_all2
           (\<lambda>(k, i) (k', i'). k' = k \<and>
              (i' = i \<or> i' = i\<lparr>info_pkg := (info_pkg i)\<lparr>pkg_main := Some (entry_main e (info_pkg i))\<rparr>\<rparr>))
           ps (packages (snd (instantiateAddons e par project (Some ps))))"
proof -
  have refl: "list_all2 (main_rel e) ps ps"
    by (simp add: list.rel_refl main_rel_def)
  have "list_all2 (main_rel e) ps (packages (snd (instantiateAddons e par project (Some ps))))"
  proof (cases "linearOrder ps")
    case (Inl x)
    with refl show ?thesis by (simp add: instantiateAddons_def Let_def)
  next
    case (Inr order)
    obtain r w where loop:
      "eachAddon e par project order [] \<lparr>packages = ps, trace = [NewDAGMap]\<rparr> = (r, w)"
      by (cases "eachAddon e par project order [] \<lparr>packages = ps, trace = [NewDAGMap]\<rparr>")
    have "list_all2 (main_rel e) ps (packages w)"
      using eachAddon_packages [OF loop assms _ ] linearOrder_Some [OF Inr] refl by simp
    with Inr loop refl show ?thesis
      by (simp add: instantiateAddons_def Let_def)
  qed
  then show ?thesis
    by (rule list.rel_mono_strong) (auto simp: main_rel_def)
qed

theorem only_main_is_written_witness:
  "distinct (map fst failing_sample)
   \<and> list_all2
           (\<lambda>(k, i) (k', i'). k' = k \<and>
              (i' = i \<or> i' = i\<lparr>info_pkg := (info_pkg i)\<lparr>pkg_main := Some (entry_main sample_env (info_pkg i))\<rparr>\<rparr>))
           failing_sample (packages (snd (instantiateAddons sample_env sample_parent None (Some failing_sample))))"
proof -
  have d: "distinct (map fst failing_sample)"
    by (simp add: failing_sample_def)
  from only_main_is_written [OF d] d show ?thesis by blast
qed

text \<open>
  C4, as stated, fails: a descriptor whose manifest has no \<^verbatim>\<open>main\<close> has
  \<^verbatim>\<open>main = 'index.js'\<close> after a call that succeeds.
\<close>

theorem manifest_main_is_overwritten:
  "instantiateAddons sample_env sample_parent None
     (Some [(''a'', descriptor ''a'' ''/addons/a'' None (Some (config None [] [])))])
   = (Inr [\<lparr>addon_ident = ''A'', has_initializeAddons = False, addon_addons = Some [],
            addon_constructor = Some \<lparr>ctor_ident = ''A'', proto_root = Some ''/addons/a'',
               proto_pkg = Some \<lparr>pkg_main = Some ''index.js'', ember_addon = Some (config None [] [])\<rparr>,
               ctor_meta = Some \<lparr>modulePath = ''/addons/a/index.js'', lookupDuration = 0\<rparr>\<rparr>\<rparr>],
      \<lparr>packages = [(''a'', descriptor ''a'' ''/addons/a'' (Some ''index.js'') (Some (config None [] [])))],
       trace = [NewDAGMap, RealpathSync ''/addons/a/index.js'', Require ''/addons/a/index.js'',
                Constructed ''a'']\<rparr>)"
  by code_simp

section \<open>Lists: one element before another\<close>

lemma find_split:
  "List.find P xs = Some u \<Longrightarrow> \<exists>ys zs. xs = ys @ u # zs \<and> P u \<and> (\<forall>y\<in>set ys. \<not> P y)"
proof (induction xs)
  case Nil
  then show ?case by simp
next
  case (Cons x xs)
  show ?case
  proof (cases "P x")
    case True
    with Cons.prems have "x = u" by simp
    with True show ?thesis by (intro exI [of _ "[]"] exI [of _ xs]) simp
  next
    case False
    with Cons obtain ys zs where "xs = ys @ u # zs" "P u" "\<forall>y\<in>set ys. \<not> P y" by auto
    with False show ?thesis by (intro exI [of _ "x # ys"] exI [of _ zs]) simp
  qed
qed

lemma precedes_Cons:
  "precedes a b (x # xs) \<longleftrightarrow> (if x = a then b \<in> set xs else precedes a b xs)"
  by (simp add: precedes_def)

lemma precedes_in_set: "precedes a b xs \<Longrightarrow> a \<in> set xs \<and> b \<in> set xs"
  by (induction xs) (auto simp: precedes_Cons precedes_def split: if_splits)

lemma precedes_split: "a \<notin> set ys \<Longrightarrow> precedes a b (ys @ a # zs) \<longleftrightarrow> b \<in> set zs"
  by (induction ys) (auto simp: precedes_Cons)

lemma precedes_remove1: "precedes a b (remove1 u xs) \<Longrightarrow> precedes a b xs"
proof (induction xs)
  case Nil
  then show ?case by simp
next
  case (Cons x xs)
  then show ?case
    using precedes_in_set [of a b xs] set_remove1_subset [of u xs]
    by (auto simp: precedes_Cons split: if_splits)
qed

lemma precedes_filter: "precedes a b xs \<Longrightarrow> P a \<Longrightarrow> P b \<Longrightarrow> precedes a b (filter P xs)"
  by (induction xs) (auto simp: precedes_Cons split: if_splits)

lemma precedes_rank:
  "distinct xs \<Longrightarrow> precedes a b xs \<Longrightarrow>
   length (takeWhile (\<lambda>x. x \<noteq> a) xs) < length (takeWhile (\<lambda>x. x \<noteq> b) xs)"
  by (induction xs) (auto simp: precedes_Cons split: if_splits dest: precedes_in_set)


section \<open>The sort: every node once, every edge respected, ties by first addition\<close>

lemma ready_iff: "ready es waiting v \<longleftrightarrow> (\<forall>a. (a, v) \<in> set es \<longrightarrow> a \<notin> set waiting)"
  by (auto simp: ready_def filter_empty_conv)

lemma ready_cong: "set xs = set ys \<Longrightarrow> ready es xs v = ready es ys v"
  by (simp add: ready_iff)

lemma kahn_step:
  "waiting \<noteq> [] \<Longrightarrow> List.find (ready es waiting) waiting = Some v \<Longrightarrow>
   kahn es waiting = (case kahn es (remove1 v waiting) of Inl e \<Rightarrow> Inl e | Inr vs \<Rightarrow> Inr (v # vs))"
  by (subst kahn.simps) simp

lemma kahn_stuck:
  "waiting \<noteq> [] \<Longrightarrow> List.find (ready es waiting) waiting = None \<Longrightarrow>
   kahn es waiting = Inl (CycleError (cycle_member es waiting))"
  by (subst kahn.simps) simp

lemma kahn_Nil: "kahn es [] = Inr []"
  by (subst kahn.simps) simp

lemma kahn_Inr_cases:
  assumes "kahn es waiting = Inr vs" and "waiting \<noteq> []"
  obtains v vs' where "List.find (ready es waiting) waiting = Some v" "v \<in> set waiting"
    "ready es waiting v" "kahn es (remove1 v waiting) = Inr vs'" "vs = v # vs'"
proof (cases "List.find (ready es waiting) waiting")
  case None
  with assms show ?thesis by (simp add: kahn_stuck)
next
  case (Some v)
  with assms obtain vs' where "kahn es (remove1 v waiting) = Inr vs'" "vs = v # vs'"
    by (auto simp: kahn_step split: sum.splits)
  moreover from Some have "v \<in> set waiting" "ready es waiting v"
    by (auto simp: find_Some_iff)
  ultimately show ?thesis using Some that by blast
qed

lemma kahn_set: "kahn es waiting = Inr vs \<Longrightarrow> distinct waiting \<Longrightarrow> set vs = set waiting \<and> distinct vs"
proof (induction es waiting arbitrary: vs rule: kahn.induct)
  case (1 es waiting)
  show ?case
  proof (cases "waiting = []")
    case True
    with "1.prems" show ?thesis by (simp add: kahn_Nil)
  next
    case False
    from "1.prems"(1) False obtain v vs' where
      f: "List.find (ready es waiting) waiting = Some v" and v: "v \<in> set waiting" and
      k: "kahn es (remove1 v waiting) = Inr vs'" and vs: "vs = v # vs'"
      by (rule kahn_Inr_cases)
    from "1.IH" [OF False f k] "1.prems"(2)
    have "set vs' = set (remove1 v waiting)" "distinct vs'" by simp_all
    with v vs "1.prems"(2) show ?thesis by auto
  qed
qed

lemma kahn_respects:
  "kahn es waiting = Inr vs \<Longrightarrow> distinct waiting \<Longrightarrow> (a, b) \<in> set es \<Longrightarrow>
   a \<in> set waiting \<Longrightarrow> b \<in> set waiting \<Longrightarrow> precedes a b vs"
proof (induction es waiting arbitrary: vs rule: kahn.induct)
  case (1 es waiting)
  from "1.prems"(4) have ne: "waiting \<noteq> []" by auto
  from "1.prems"(1) ne obtain v vs' where
    f: "List.find (ready es waiting) waiting = Some v" and v: "v \<in> set waiting" and
    r: "ready es waiting v" and
    k: "kahn es (remove1 v waiting) = Inr vs'" and vs: "vs = v # vs'"
    by (rule kahn_Inr_cases)
  from "1.prems"(2) have d: "distinct (remove1 v waiting)" by simp
  from r "1.prems"(3,4) have bv: "b \<noteq> v" by (auto simp: ready_iff)
  from kahn_set [OF k d] "1.prems"(2) have s: "set vs' = set waiting - {v}" by simp
  show ?case
  proof (cases "a = v")
    case True
    with bv s "1.prems"(5) vs show ?thesis by (simp add: precedes_Cons)
  next
    case False
    with bv "1.prems" have "precedes a b vs'"
      using "1.IH" [OF ne f k d] by simp
    with False vs show ?thesis by (simp add: precedes_Cons)
  qed
qed

lemma kahn_tie_break:
  "kahn es waiting = Inr vs \<Longrightarrow> distinct waiting \<Longrightarrow> vs = pre @ v # post \<Longrightarrow>
   w \<in> set post \<Longrightarrow> ready es (v # post) w \<Longrightarrow> precedes v w waiting"
proof (induction es waiting arbitrary: vs pre rule: kahn.induct)
  case (1 es waiting)
  from "1.prems"(1,3) have ne: "waiting \<noteq> []" by (auto simp: kahn_Nil)
  from "1.prems"(1) ne obtain u vs' where
    f: "List.find (ready es waiting) waiting = Some u" and
    k: "kahn es (remove1 u waiting) = Inr vs'" and vs: "vs = u # vs'"
    by (rule kahn_Inr_cases)
  from "1.prems"(2) have d: "distinct (remove1 u waiting)" by simp
  from kahn_set [OF "1.prems"(1,2)] have sv: "set vs = set waiting" "distinct vs" by simp_all
  show ?case
  proof (cases pre)
    case Nil
    with "1.prems"(3) vs have uv: "u = v" "vs' = post" by simp_all
    from find_split [OF f] obtain ys zs where
      sp: "waiting = ys @ u # zs" "\<forall>y\<in>set ys. \<not> ready es waiting y" by blast
    from sv "1.prems"(3) Nil have "set (v # post) = set waiting" by simp
    from ready_cong [OF this] "1.prems"(5) have "ready es waiting w" by simp
    with sp have "w \<notin> set ys" by blast
    moreover from sv(2) "1.prems"(3,4) Nil uv have "w \<noteq> u" by auto
    moreover from sv(1) "1.prems"(3,4) have "w \<in> set waiting" by auto
    ultimately have "w \<in> set zs" using sp(1) by auto
    moreover from "1.prems"(2) sp(1) have "u \<notin> set ys" by auto
    ultimately show ?thesis using sp(1) uv by (simp add: precedes_split)
  next
    case (Cons p pre')
    with "1.prems"(3) vs have "vs' = pre' @ v # post" by simp
    from "1.IH" [OF ne f k d this "1.prems"(4,5)]
    show ?thesis by (rule precedes_remove1)
  qed
qed

lemma kahn_acyclic:
  "distinct waiting \<Longrightarrow> acyclic (set es) \<Longrightarrow> \<exists>vs. kahn es waiting = Inr vs"
proof (induction es waiting rule: kahn.induct)
  case (1 es waiting)
  show ?case
  proof (cases "waiting = []")
    case True
    then show ?thesis by (simp add: kahn_Nil)
  next
    case False
    then obtain x where x: "x \<in> set waiting" by (cases waiting) auto
    from "1.prems"(2) have "wf (set es)"
      by (simp add: finite_acyclic_wf)
    from wfE_min [OF this x] obtain z where
      "z \<in> set waiting" "\<And>y. (y, z) \<in> set es \<Longrightarrow> y \<notin> set waiting"
      by blast
    then have "\<exists>z\<in>set waiting. ready es waiting z"
      by (auto simp: ready_iff)
    then obtain v where f: "List.find (ready es waiting) waiting = Some v"
      by (cases "List.find (ready es waiting) waiting") (auto simp: find_None_iff)
    from "1.prems"(1) have "distinct (remove1 v waiting)" by simp
    from "1.IH" [OF False f this "1.prems"(2)] obtain vs' where
      "kahn es (remove1 v waiting) = Inr vs'" by blast
    with False f show ?thesis by (simp add: kahn_step)
  qed
qed

section \<open>The sort: a cycle is found and named\<close>

lemma blocker_edge:
  assumes "\<not> ready es waiting v"
  shows "(blocker es waiting v, v) \<in> set es \<and> blocker es waiting v \<in> set waiting"
proof -
  from assms obtain a b rest where
    f: "filter (\<lambda>(a, b). b = v \<and> a \<in> set waiting) es = (a, b) # rest"
    by (cases "filter (\<lambda>(a, b). b = v \<and> a \<in> set waiting) es") (auto simp: ready_def)
  then have "(a, b) \<in> set (filter (\<lambda>(a, b). b = v \<and> a \<in> set waiting) es)"
    by simp
  then have "(a, v) \<in> set es" "a \<in> set waiting" by auto
  with f show ?thesis by (simp add: blocker_def)
qed

lemma funpow_closed:
  assumes "\<And>v. v \<in> S \<Longrightarrow> f v \<in> S" and "x \<in> S"
  shows "(f ^^ k) x \<in> S"
  using assms by (induction k) auto

lemma funpow_path:
  assumes step: "\<And>v. v \<in> S \<Longrightarrow> f v \<in> S \<and> (f v, v) \<in> r" and x: "x \<in> S" and k: "0 < k"
  shows "((f ^^ k) x, x) \<in> r\<^sup>+"
  using k
proof (induction k)
  case 0
  then show ?case by simp
next
  case (Suc k)
  have in_S: "(f ^^ k) x \<in> S"
    using step x by (intro funpow_closed) auto
  with step have e: "(f ((f ^^ k) x), (f ^^ k) x) \<in> r" by blast
  show ?case
  proof (cases "k = 0")
    case True
    with e show ?thesis by auto
  next
    case False
    with Suc.IH have "((f ^^ k) x, x) \<in> r\<^sup>+" by simp
    with e show ?thesis by (simp add: trancl_into_trancl2)
  qed
qed

lemma funpow_swap_pow: "(f ^^ d) ((f ^^ m) y) = (f ^^ m) ((f ^^ d) y)"
  by (induction d) (simp_all add: funpow_swap1)

lemma funpow_repeats:
  assumes closed: "\<And>v. v \<in> S \<Longrightarrow> f v \<in> S" and x: "x \<in> S" and fin: "finite S" and n: "card S \<le> n"
  shows "\<exists>d. 0 < d \<and> (f ^^ d) ((f ^^ n) x) = (f ^^ n) x"
proof -
  let ?g = "\<lambda>i. (f ^^ i) x"
  have "?g ` {0..n} \<subseteq> S"
    using closed x by (auto intro: funpow_closed)
  then have "card (?g ` {0..n}) \<le> card S"
    using fin by (rule card_mono [rotated])
  with n have "card (?g ` {0..n}) < card {0..n}" by simp
  then have "\<not> inj_on ?g {0..n}" by (rule pigeonhole)
  then obtain i j where ij: "i \<le> n" "j \<le> n" "i \<noteq> j" "?g i = ?g j"
    by (auto simp: inj_on_def)
  define a where "a = min i j"
  define b where "b = max i j"
  from ij have ab: "a < b" "b \<le> n" "?g a = ?g b"
    by (auto simp: a_def b_def min_def max_def)
  define d where "d = b - a"
  from ab have d: "0 < d" "b = d + a" by (simp_all add: d_def)
  have per: "(f ^^ d) (?g a) = ?g a"
    using ab(3) d(2) by (simp add: funpow_add)
  from ab have na: "n = (n - a) + a" by simp
  have "(f ^^ d) (?g n) = (f ^^ d) ((f ^^ (n - a)) (?g a))"
    by (subst na) (simp add: funpow_add)
  also have "\<dots> = (f ^^ (n - a)) ((f ^^ d) (?g a))"
    by (rule funpow_swap_pow)
  also have "\<dots> = (f ^^ (n - a)) (?g a)"
    by (simp only: per)
  also have "\<dots> = ?g n"
    by (subst (2) na) (simp add: funpow_add)
  finally show ?thesis using d(1) by blast
qed

lemma cycle_member_on_cycle:
  assumes ne: "waiting \<noteq> []" and stuck: "\<And>v. v \<in> set waiting \<Longrightarrow> \<not> ready es waiting v"
  shows "(cycle_member es waiting, cycle_member es waiting) \<in> (set es)\<^sup>+"
proof -
  let ?f = "blocker es waiting"
  from ne obtain x xs where w: "waiting = x # xs" by (cases waiting) auto
  then have x: "x \<in> set waiting" by simp
  have step: "\<And>v. v \<in> set waiting \<Longrightarrow> ?f v \<in> set waiting \<and> (?f v, v) \<in> set es"
    using blocker_edge stuck by blast
  have cm: "cycle_member es waiting = (?f ^^ length waiting) x"
    using w by (simp add: cycle_member_def)
  have z: "(?f ^^ length waiting) x \<in> set waiting"
    using step x by (intro funpow_closed) auto
  from funpow_repeats [of "set waiting" ?f x "length waiting"] step x
  obtain d where d: "0 < d" "(?f ^^ d) ((?f ^^ length waiting) x) = (?f ^^ length waiting) x"
    using card_length [of waiting] by auto
  from funpow_path [of "set waiting" ?f "set es", OF step z d(1)] d(2) cm
  show ?thesis by simp
qed

lemma kahn_error:
  "kahn es waiting = Inl err \<Longrightarrow> \<exists>n. err = CycleError n \<and> (n, n) \<in> (set es)\<^sup>+"
proof (induction es waiting rule: kahn.induct)
  case (1 es waiting)
  from "1.prems" have ne: "waiting \<noteq> []" by (auto simp: kahn_Nil)
  show ?case
  proof (cases "List.find (ready es waiting) waiting")
    case None
    then have "\<And>v. v \<in> set waiting \<Longrightarrow> \<not> ready es waiting v"
      by (auto simp: find_None_iff)
    from cycle_member_on_cycle [OF ne this] None ne "1.prems" show ?thesis
      by (auto simp: kahn_stuck)
  next
    case (Some v)
    with ne "1.prems" have "kahn es (remove1 v waiting) = Inl err"
      by (auto simp: kahn_step split: sum.splits)
    from "1.IH" [OF ne Some this] show ?thesis .
  qed
qed

lemma kahn_Inr_acyclic:
  assumes k: "kahn es waiting = Inr vs" and d: "distinct waiting"
      and sub: "\<And>a b. (a, b) \<in> set es \<Longrightarrow> a \<in> set waiting \<and> b \<in> set waiting"
  shows "acyclic (set es)"
proof -
  from kahn_set [OF k d] have dv: "distinct vs" by simp
  have "acyclic ((set es)\<inverse>)"
  proof (rule acyclicI_order [where f = "\<lambda>x. length (takeWhile (\<lambda>y. y \<noteq> x) vs)"])
    fix a b
    assume "(a, b) \<in> (set es)\<inverse>"
    then have e: "(b, a) \<in> set es" by simp
    with sub have "b \<in> set waiting" "a \<in> set waiting" by blast+
    from kahn_respects [OF k d e this] have "precedes b a vs" .
    from precedes_rank [OF dv this]
    show "length (takeWhile (\<lambda>y. y \<noteq> b) vs) < length (takeWhile (\<lambda>y. y \<noteq> a) vs)" .
  qed
  then show ?thesis by simp
qed

lemma kahn_cyclic:
  assumes c: "\<not> acyclic (set es)" and d: "distinct waiting"
      and sub: "\<And>a b. (a, b) \<in> set es \<Longrightarrow> a \<in> set waiting \<and> b \<in> set waiting"
  shows "\<exists>n. kahn es waiting = Inl (CycleError n) \<and> (n, n) \<in> (set es)\<^sup>+"
proof (cases "kahn es waiting")
  case (Inl err)
  with kahn_error [OF Inl] show ?thesis by simp
next
  case (Inr vs)
  from kahn_Inr_acyclic [OF Inr d sub] c show ?thesis by simp
qed

section \<open>The graph that is built from the descriptors\<close>

lemma edges_touch: "edges (touch k g) = edges g"
  by (simp add: touch_def)

lemma keys_touch:
  "map fst (vertices (touch k g)) =
     (if k \<in> set (map fst (vertices g)) then map fst (vertices g) else map fst (vertices g) @ [k])"
  by (simp add: touch_def)

lemma keys_set_val: "map fst (vertices (set_val k v g)) = map fst (vertices g)"
  by (simp add: set_val_def case_prod_beta comp_def if_distrib cong: if_cong)

lemma edges_set_val: "edges (set_val k v g) = edges g"
  by (simp add: set_val_def)

lemma edges_add_edge: "edges (add_edge a b g) = edges g @ [(a, b)]"
  by (simp add: add_edge_def)

lemma keys_add_edge:
  "map fst (vertices (add_edge a b g)) = map fst (vertices (touch b (touch a g)))"
  by (simp add: add_edge_def)

lemma wf_touch: "wf_dag g \<Longrightarrow> wf_dag (touch k g)"
  by (auto simp: wf_dag_def touch_def)

lemma wf_set_val: "wf_dag g \<Longrightarrow> wf_dag (set_val k v g)"
  by (simp add: wf_dag_def keys_set_val edges_set_val)

lemma wf_add_edge: "wf_dag g \<Longrightarrow> wf_dag (add_edge a b g)"
proof -
  assume "wf_dag g"
  then have w: "wf_dag (touch b (touch a g))" by (intro wf_touch)
  have ka: "a \<in> set (map fst (vertices (touch b (touch a g))))"
    by (auto simp: touch_def)
  have kb: "b \<in> set (map fst (vertices (touch b (touch a g))))"
    by (auto simp: touch_def)
  from w ka kb show ?thesis
    unfolding wf_dag_def keys_add_edge edges_add_edge
    by (auto simp: edges_touch)
qed

lemma wf_fold_before: "wf_dag g \<Longrightarrow> wf_dag (fold (\<lambda>b. add_edge k b) bs g)"
  by (induction bs arbitrary: g) (simp_all add: wf_add_edge)

lemma wf_fold_after: "wf_dag g \<Longrightarrow> wf_dag (fold (\<lambda>a. add_edge a k) as g)"
  by (induction as arbitrary: g) (simp_all add: wf_add_edge)

lemma wf_dag_add: "wf_dag g \<Longrightarrow> wf_dag (dag_add k v bs as g)"
  by (simp add: dag_add_def wf_fold_after wf_fold_before wf_set_val wf_touch)

lemma wf_empty_dag: "wf_dag empty_dag"
  by (simp add: wf_dag_def empty_dag_def)

lemma wf_buildGraph: "buildGraph ps g = Inr g' \<Longrightarrow> wf_dag g \<Longrightarrow> wf_dag g'"
  by (induction ps g rule: buildGraph.induct) (auto simp: wf_dag_add split: option.splits)

lemma edges_fold_before: "edges (fold (\<lambda>b. add_edge k b) bs g) = edges g @ map (\<lambda>b. (k, b)) bs"
  by (induction bs arbitrary: g) (simp_all add: edges_add_edge)

lemma edges_fold_after: "edges (fold (\<lambda>a. add_edge a k) as g) = edges g @ map (\<lambda>a. (a, k)) as"
  by (induction as arbitrary: g) (simp_all add: edges_add_edge)

lemma edges_dag_add:
  "edges (dag_add k v bs as g) = edges g @ map (\<lambda>b. (k, b)) bs @ map (\<lambda>a. (a, k)) as"
  by (simp add: dag_add_def edges_fold_after edges_fold_before edges_set_val edges_touch)

lemma edges_buildGraph: "buildGraph ps g = Inr g' \<Longrightarrow> edges g' = edges g @ constraints ps"
  by (induction ps g rule: buildGraph.induct)
     (auto simp: edges_dag_add constraints_def constraints_of_def split: option.splits)

lemma buildGraph_has_config: "list_all has_config ps \<Longrightarrow> \<exists>g'. buildGraph ps g = Inr g'"
  by (induction ps g rule: buildGraph.induct) (auto simp: has_config_def)

lemma map_of_snoc_None:
  "map_of (xs @ [(k, None)]) k' =
     (case map_of xs k' of Some v \<Rightarrow> Some v | None \<Rightarrow> if k' = k then Some None else None)"
  by (induction xs) auto

lemma payload_touch: "payload (touch k g) k' = payload g k'"
  by (auto simp: payload_def touch_def map_of_snoc_None split: option.splits if_splits)

lemma vertices_add_edge: "vertices (add_edge a b g) = vertices (touch b (touch a g))"
  by (simp add: add_edge_def)

lemma payload_add_edge: "payload (add_edge a b g) k' = payload g k'"
proof -
  have "payload (add_edge a b g) k' = payload (touch b (touch a g)) k'"
    by (simp add: payload_def vertices_add_edge)
  then show ?thesis by (simp add: payload_touch)
qed

lemma payload_fold_before: "payload (fold (\<lambda>b. add_edge k b) bs g) k' = payload g k'"
  by (induction bs arbitrary: g) (simp_all add: payload_add_edge)

lemma payload_fold_after: "payload (fold (\<lambda>a. add_edge a k) as g) k' = payload g k'"
  by (induction as arbitrary: g) (simp_all add: payload_add_edge)

lemma map_of_set_val:
  "map_of (map (\<lambda>(x, y). if x = k then (x, Some v) else (x, y)) xs) k' =
     (if k' = k \<and> k \<in> fst ` set xs then Some (Some v) else map_of xs k')"
proof (induction xs)
  case Nil
  then show ?case by simp
next
  case (Cons p xs)
  obtain x y where p: "p = (x, y)" by (cases p)
  show ?case
  proof (cases "x = k")
    case True
    with p Cons show ?thesis by simp
  next
    case False
    with p Cons show ?thesis by (cases "k' = k") (auto split: if_splits)
  qed
qed

lemma payload_set_val:
  "payload (set_val k v g) k' =
     (if k' = k \<and> k \<in> fst ` set (vertices g) then Some v else payload g k')"
  by (simp add: payload_def set_val_def map_of_set_val)

lemma key_touch: "k \<in> fst ` set (vertices (touch k g))"
  by (auto simp: touch_def)

lemma payload_dag_add: "payload (dag_add k v bs as g) k' = (if k' = k then Some v else payload g k')"
  by (simp add: dag_add_def payload_fold_after payload_fold_before payload_set_val payload_touch
      key_touch)

lemma payload_buildGraph:
  "buildGraph ps g = Inr g' \<Longrightarrow> payload g k \<noteq> None \<or> k \<in> fst ` set ps \<Longrightarrow> payload g' k \<noteq> None"
proof (induction ps g rule: buildGraph.induct)
  case (1 g)
  then show ?case by simp
next
  case (2 n info rest g)
  then obtain c where c: "ember_addon (info_pkg info) = Some c"
    by (cases "ember_addon (info_pkg info)") auto
  from "2.prems"(2) have
    "payload (dag_add n info (ea_before c) (ea_after c) g) k \<noteq> None \<or> k \<in> fst ` set rest"
    by (auto simp: payload_dag_add)
  with "2.IH" [OF c] "2.prems"(1) c show ?case by simp
qed

lemma payload_key: "payload g k \<noteq> None \<Longrightarrow> k \<in> set (map fst (vertices g))"
  by (auto simp: payload_def split: option.splits dest: map_of_SomeD intro: rev_image_eqI)

lemma with_payload_map:
  "with_payload (map (\<lambda>k. (k, f k)) ks) = filter (\<lambda>k. f k \<noteq> None) ks"
proof (induction ks)
  case Nil
  then show ?case by simp
next
  case (Cons k ks)
  then show ?case by (cases "f k") simp_all
qed

lemma keys_touch_add_new: "map fst (vertices (touch k g)) = add_new k (map fst (vertices g))"
  by (simp add: touch_def add_new_def)

lemma add_new_known: "k \<in> set xs \<Longrightarrow> add_new k xs = xs"
  by (simp add: add_new_def)

lemma in_add_new: "k \<in> set (add_new a xs) \<longleftrightarrow> k = a \<or> k \<in> set xs"
  by (auto simp: add_new_def)

lemma keys_add_edge_before:
  "k \<in> set (map fst (vertices g)) \<Longrightarrow>
   map fst (vertices (add_edge k b g)) = add_new b (map fst (vertices g))"
  by (simp add: keys_add_edge keys_touch_add_new add_new_known)

lemma keys_add_edge_after:
  "k \<in> set (map fst (vertices g)) \<Longrightarrow>
   map fst (vertices (add_edge a k g)) = add_new a (map fst (vertices g))"
  by (simp add: keys_add_edge keys_touch_add_new add_new_known in_add_new)

lemma keys_fold_before:
  "k \<in> set (map fst (vertices g)) \<Longrightarrow>
   map fst (vertices (fold (\<lambda>b. add_edge k b) bs g)) = fold add_new bs (map fst (vertices g))"
proof (induction bs arbitrary: g)
  case Nil
  then show ?case by simp
next
  case (Cons b bs)
  from Cons.prems have "k \<in> set (map fst (vertices (add_edge k b g)))"
    by (simp add: keys_add_edge_before in_add_new)
  from Cons.IH [OF this] Cons.prems show ?case
    by (simp add: keys_add_edge_before)
qed

lemma keys_fold_after:
  "k \<in> set (map fst (vertices g)) \<Longrightarrow>
   map fst (vertices (fold (\<lambda>a. add_edge a k) as g)) = fold add_new as (map fst (vertices g))"
proof (induction as arbitrary: g)
  case Nil
  then show ?case by simp
next
  case (Cons a as)
  from Cons.prems have "k \<in> set (map fst (vertices (add_edge a k g)))"
    by (simp add: keys_add_edge_after in_add_new)
  from Cons.IH [OF this] Cons.prems show ?case
    by (simp add: keys_add_edge_after)
qed

lemma in_fold_add_new: "k \<in> set xs \<Longrightarrow> k \<in> set (fold add_new ys xs)"
  by (induction ys arbitrary: xs) (simp_all add: in_add_new)

lemma keys_dag_add:
  "map fst (vertices (dag_add k v bs as g)) = fold add_new (k # bs @ as) (map fst (vertices g))"
proof -
  let ?g1 = "set_val k v (touch k g)"
  have k1: "map fst (vertices ?g1) = add_new k (map fst (vertices g))"
    by (simp add: keys_set_val keys_touch_add_new)
  then have m1: "k \<in> set (map fst (vertices ?g1))"
    by (simp add: in_add_new)
  have k2: "map fst (vertices (fold (\<lambda>b. add_edge k b) bs ?g1))
      = fold add_new bs (add_new k (map fst (vertices g)))"
    using keys_fold_before [OF m1] k1 by simp
  then have m2: "k \<in> set (map fst (vertices (fold (\<lambda>b. add_edge k b) bs ?g1)))"
    by (simp add: in_fold_add_new in_add_new)
  from keys_fold_after [OF m2] k2 show ?thesis
    by (simp add: dag_add_def)
qed

lemma keys_buildGraph:
  "buildGraph ps g = Inr g' \<Longrightarrow>
   map fst (vertices g')
     = fold add_new (concat (map (\<lambda>(n, info). mentions_of n info) ps)) (map fst (vertices g))"
proof (induction ps g rule: buildGraph.induct)
  case (1 g)
  then show ?case by simp
next
  case (2 n info rest g)
  then obtain c where c: "ember_addon (info_pkg info) = Some c"
    by (cases "ember_addon (info_pkg info)") auto
  with 2 show ?case
    by (simp add: keys_dag_add mentions_of_def)
qed

lemma firstAdded_keys: "buildGraph ps empty_dag = Inr g \<Longrightarrow> map fst (vertices g) = firstAdded ps"
  by (simp add: keys_buildGraph firstAdded_def empty_dag_def)

section \<open>The order of construction\<close>

lemma eachAddon_constructed:
  assumes "eachAddon e par project order acc w = (r, w')"
  shows "\<exists>evs rest. trace w' = trace w @ evs \<and> with_payload order = constructed evs @ rest \<and>
           (\<forall>as. r = Inr as \<longrightarrow> rest = [])"
  using assms
proof (induction e par project order acc w rule: eachAddon.induct)
  case (1 e par project addons w)
  then show ?case by simp
next
  case (2 e par project key rest addons w)
  then show ?case by simp
next
  case (3 e par project key info rest addons w)
  obtain r1 w1 where step: "initializeAddon e par project key info w = (r1, w1)"
    by (cases "initializeAddon e par project key info w")
  from initializeAddon_constructed [OF step] obtain evs1 where
    t1: "trace w1 = trace w @ evs1" and
    c1: "case r1 of Inr a \<Rightarrow> constructed evs1 = [key]
         | Inl x \<Rightarrow> constructed evs1 = [] \<or> constructed evs1 = [key]"
    by blast
  show ?case
  proof (cases r1)
    case (Inl x)
    with step "3.prems" have rw: "r = Inl x" "w' = w1" by auto
    from c1 Inl have "constructed evs1 = [] \<or> constructed evs1 = [key]" by simp
    then have "\<exists>rest'. with_payload ((key, Some info) # rest) = constructed evs1 @ rest'"
      by auto
    with t1 rw show ?thesis by auto
  next
    case (Inr a)
    with step "3.prems" have rest: "eachAddon e par project rest (addons @ [a]) w1 = (r, w')"
      by simp
    from c1 Inr have k: "constructed evs1 = [key]" by simp
    from "3.IH" [OF step [symmetric] Inr rest] obtain evs2 rest2 where
      t2: "trace w' = trace w1 @ evs2" and
      c2: "with_payload rest = constructed evs2 @ rest2" and
      f2: "\<forall>as. r = Inr as \<longrightarrow> rest2 = []"
      by blast
    have "trace w' = trace w @ (evs1 @ evs2)" using t1 t2 by simp
    moreover have "with_payload ((key, Some info) # rest) = constructed (evs1 @ evs2) @ rest2"
      using k c2 by (simp add: constructed_append)
    ultimately show ?thesis using f2 by blast
  qed
qed

text \<open>
  C1. For a descriptor map whose descriptors all carry an ordering configuration and
  whose constraints have no cycle, the graph resolves to an order in which no name occurs
  twice and the names that carry a descriptor are exactly the keys of the map, each once;
  for every registered constraint \<open>a\<close> before \<open>b\<close> (from a \<^verbatim>\<open>before\<close> list of \<open>a\<close> or an
  \<^verbatim>\<open>after\<close> list of \<open>b\<close>), \<open>a\<close> stands before \<open>b\<close> in the order, and in the order of the
  descriptors when both are keys; whenever a node is emitted and a later node was ready
  at that moment too, the emitted one was first added earlier; and in every call, for any
  environment, parent and project, the constructors are called in this order, all of them
  when the call succeeds.
\<close>

theorem resolved_order:
  assumes cfg: "list_all has_config ps" and acyc: "acyclic (set (constraints ps))"
  shows "\<exists>order. linearOrder ps = Inr order
          \<and> distinct (map fst order)
          \<and> set (with_payload order) = set (map fst ps)
          \<and> distinct (with_payload order)
          \<and> (\<forall>(a, b)\<in>set (constraints ps). precedes a b (map fst order)
                \<and> (a \<in> set (map fst ps) \<and> b \<in> set (map fst ps) \<longrightarrow> precedes a b (with_payload order)))
          \<and> (\<forall>pre v post w. map fst order = pre @ v # post \<and> w \<in> set post
                \<and> ready (constraints ps) (v # post) w \<longrightarrow> precedes v w (firstAdded ps))
          \<and> (\<forall>e par project. \<exists>rest.
                with_payload order
                  = constructed (trace (snd (instantiateAddons e par project (Some ps)))) @ rest
                \<and> (\<forall>as. fst (instantiateAddons e par project (Some ps)) = Inr as \<longrightarrow> rest = []))"
proof -
  from buildGraph_has_config [OF cfg] obtain g where bg: "buildGraph ps empty_dag = Inr g"
    by blast
  let ?keys = "map fst (vertices g)"
  from wf_buildGraph [OF bg wf_empty_dag] have wf: "wf_dag g" .
  then have dk: "distinct ?keys" by (simp add: wf_dag_def)
  from edges_buildGraph [OF bg] have es: "edges g = constraints ps"
    by (simp add: empty_dag_def)
  from wf es have ends: "\<And>a b. (a, b) \<in> set (constraints ps) \<Longrightarrow> a \<in> set ?keys \<and> b \<in> set ?keys"
    by (auto simp: wf_dag_def)
  from kahn_acyclic [OF dk acyc] obtain ks where ks: "kahn (constraints ps) ?keys = Inr ks"
    by blast
  define order where "order = map (\<lambda>k. (k, payload g k)) ks"
  have lo: "linearOrder ps = Inr order"
    using bg ks es by (simp add: linearOrder_def dag_resolve_def order_def)
  have mf: "map fst order = ks"
    by (simp add: order_def comp_def)
  from kahn_set [OF ks dk] have sk: "set ks = set ?keys" "distinct ks" by simp_all
  have wp: "with_payload order = filter (\<lambda>k. payload g k \<noteq> None) ks"
    by (simp add: order_def with_payload_map)
  have pay: "\<And>k. k \<in> set (map fst ps) \<Longrightarrow> payload g k \<noteq> None"
    using payload_buildGraph [OF bg] by simp
  have "set (with_payload order) = set (map fst ps)"
  proof
    show "set (with_payload order) \<subseteq> set (map fst ps)"
    proof
      fix k assume "k \<in> set (with_payload order)"
      with wp obtain i where "payload g k = Some i" by auto
      from buildGraph_Some [OF bg payload_Some [OF this]] show "k \<in> set (map fst ps)"
        by (auto simp: empty_dag_def intro: rev_image_eqI)
    qed
    show "set (map fst ps) \<subseteq> set (with_payload order)"
    proof
      fix k assume k: "k \<in> set (map fst ps)"
      from payload_key [OF pay [OF k]] sk(1) have "k \<in> set ks" by simp
      with pay [OF k] wp show "k \<in> set (with_payload order)" by simp
    qed
  qed
  moreover have "distinct (with_payload order)"
    using sk(2) wp by simp
  moreover have "\<forall>(a, b)\<in>set (constraints ps). precedes a b (map fst order)
      \<and> (a \<in> set (map fst ps) \<and> b \<in> set (map fst ps) \<longrightarrow> precedes a b (with_payload order))"
  proof (clarify, intro conjI impI)
    fix a b assume e: "(a, b) \<in> set (constraints ps)"
    from kahn_respects [OF ks dk e] ends [OF e] mf show p: "precedes a b (map fst order)"
      by simp
    assume "a \<in> set (map fst ps) \<and> b \<in> set (map fst ps)"
    with pay have "payload g a \<noteq> None" "payload g b \<noteq> None" by blast+
    from precedes_filter [of a b ks "\<lambda>k. payload g k \<noteq> None"] p mf this wp
    show "precedes a b (with_payload order)" by simp
  qed
  moreover have "\<forall>pre v post w. map fst order = pre @ v # post \<and> w \<in> set post
      \<and> ready (constraints ps) (v # post) w \<longrightarrow> precedes v w (firstAdded ps)"
    using kahn_tie_break [OF ks dk] mf firstAdded_keys [OF bg] by auto
  moreover have "\<forall>e par project. \<exists>rest.
      with_payload order
        = constructed (trace (snd (instantiateAddons e par project (Some ps)))) @ rest
      \<and> (\<forall>as. fst (instantiateAddons e par project (Some ps)) = Inr as \<longrightarrow> rest = [])"
  proof (intro allI)
    fix e par project
    show "\<exists>rest. with_payload order
        = constructed (trace (snd (instantiateAddons e par project (Some ps)))) @ rest
      \<and> (\<forall>as. fst (instantiateAddons e par project (Some ps)) = Inr as \<longrightarrow> rest = [])"
    proof (cases "ps = []")
      case True
      with lo have "order = []"
        by (simp add: linearOrder_def dag_resolve_def empty_dag_def kahn_Nil)
      with True show ?thesis by (simp add: instantiateAddons_def)
    next
      case False
      obtain r w where loop:
        "eachAddon e par project order [] \<lparr>packages = ps, trace = [NewDAGMap]\<rparr> = (r, w)"
        by (cases "eachAddon e par project order [] \<lparr>packages = ps, trace = [NewDAGMap]\<rparr>")
      with False lo have run: "instantiateAddons e par project (Some ps) = (r, w)"
        by (simp add: instantiateAddons_def Let_def)
      from eachAddon_constructed [OF loop] obtain evs rest where
        "trace w = trace \<lparr>packages = ps, trace = [NewDAGMap]\<rparr> @ evs"
        "with_payload order = constructed evs @ rest" "\<forall>as. r = Inr as \<longrightarrow> rest = []"
        by blast
      with run show ?thesis by simp
    qed
  qed
  ultimately show ?thesis
    using lo mf sk(2) by blast
qed

theorem resolved_order_witness:
  "list_all has_config ordered_sample
   \<and> acyclic (set (constraints ordered_sample))
   \<and> (\<exists>order. linearOrder ordered_sample = Inr order
         \<and> distinct (map fst order)
         \<and> set (with_payload order) = set (map fst ordered_sample)
         \<and> precedes ''a'' ''b'' (with_payload order))"
proof -
  have cs: "constraints ordered_sample = [(''a'', ''b'')]"
    by (simp add: constraints_def constraints_of_def ordered_sample_def descriptor_def config_def)
  have h1: "list_all has_config ordered_sample"
    by (simp add: has_config_def ordered_sample_def descriptor_def)
  have "acyclic ({} :: (name \<times> name) set)"
    by (simp add: acyclic_def)
  then have h2: "acyclic (set (constraints ordered_sample))"
    by (simp add: cs)
  have keys: "''a'' \<in> set (map fst ordered_sample)" "''b'' \<in> set (map fst ordered_sample)"
    by (simp_all add: ordered_sample_def)
  from resolved_order [OF h1 h2] obtain order where
    "linearOrder ordered_sample = Inr order" "distinct (map fst order)"
    "set (with_payload order) = set (map fst ordered_sample)"
    "\<forall>(a, b)\<in>set (constraints ordered_sample). precedes a b (map fst order)
       \<and> (a \<in> set (map fst ordered_sample) \<and> b \<in> set (map fst ordered_sample)
            \<longrightarrow> precedes a b (with_payload order))"
    by blast
  with cs keys h1 h2 show ?thesis by auto
qed

text \<open>The examples of the specification: with \<open>b\<close> after \<open>a\<close> the order is \<open>a\<close>, \<open>b\<close>;
  with \<open>b\<close> before \<open>a\<close> it is \<open>b\<close>, \<open>a\<close>, the order of the keys.\<close>

lemma resolved_order_examples:
  "orderNames ordered_sample = Inr [''a'', ''b'']"
  "orderNames before_sample = Inr [''b'', ''a'']"
  by code_simp+

text \<open>A name that only occurs in a constraint is a node from the moment it is first
  mentioned, and is skipped when the instances are built.\<close>

lemma firstAdded_example:
  "firstAdded
     [(''x'', descriptor ''x'' ''/addons/x'' None (Some (config None [''u''] [''v'']))),
      (''y'', descriptor ''y'' ''/addons/y'' None (Some (config None [] [])))]
   = [''x'', ''u'', ''v'', ''y'']"
  "orderNames
     [(''x'', descriptor ''x'' ''/addons/x'' None (Some (config None [''u''] [''v'']))),
      (''y'', descriptor ''y'' ''/addons/y'' None (Some (config None [] [])))]
   = Inr [''v'', ''x'', ''u'', ''y'']"
  by code_simp+

section \<open>Constraints with a cycle\<close>

text \<open>
  C2. For a descriptor map whose descriptors all carry an ordering configuration and
  whose constraints contain a cycle, every call fails with a \<open>CycleError\<close> that names a
  node lying on a cycle; no sequence of instances is returned, no entry point is looked
  up, no module is loaded and no descriptor is written. The call ends: the model is a
  total function.
\<close>

theorem cycle_is_fatal:
  assumes cfg: "list_all has_config ps" and cyc: "\<not> acyclic (set (constraints ps))"
  shows "\<exists>n. instantiateAddons e par project (Some ps)
              = (Inl (CycleError n), \<lparr>packages = ps, trace = [NewDAGMap]\<rparr>)
            \<and> (n, n) \<in> (set (constraints ps))\<^sup>+"
proof -
  from cyc have ne: "ps \<noteq> []"
    by (auto simp: constraints_def acyclic_def)
  from buildGraph_has_config [OF cfg] obtain g where bg: "buildGraph ps empty_dag = Inr g"
    by blast
  from wf_buildGraph [OF bg wf_empty_dag] have wf: "wf_dag g" .
  from edges_buildGraph [OF bg] have es: "edges g = constraints ps"
    by (simp add: empty_dag_def)
  from wf es have ends: "\<And>a b. (a, b) \<in> set (constraints ps) \<Longrightarrow>
      a \<in> set (map fst (vertices g)) \<and> b \<in> set (map fst (vertices g))"
    by (auto simp: wf_dag_def)
  from wf have dk: "distinct (map fst (vertices g))" by (simp add: wf_dag_def)
  from kahn_cyclic [OF cyc dk ends] obtain n where
    n: "kahn (constraints ps) (map fst (vertices g)) = Inl (CycleError n)"
       "(n, n) \<in> (set (constraints ps))\<^sup>+"
    by blast
  from bg es n(1) have "linearOrder ps = Inl (CycleError n)"
    by (simp add: linearOrder_def dag_resolve_def)
  with ne n(2) show ?thesis
    by (simp add: instantiateAddons_def Let_def)
qed

theorem cycle_is_fatal_witness:
  "list_all has_config cyclic_sample
   \<and> \<not> acyclic (set (constraints cyclic_sample))
   \<and> (\<exists>n. instantiateAddons sample_env sample_parent None (Some cyclic_sample)
              = (Inl (CycleError n), \<lparr>packages = cyclic_sample, trace = [NewDAGMap]\<rparr>)
            \<and> (n, n) \<in> (set (constraints cyclic_sample))\<^sup>+)"
proof -
  have cs: "constraints cyclic_sample = [(''a'', ''b''), (''b'', ''a'')]"
    by (simp add: constraints_def constraints_of_def cyclic_sample_def descriptor_def config_def)
  have h1: "list_all has_config cyclic_sample"
    by (simp add: has_config_def cyclic_sample_def descriptor_def)
  have "(''a'', ''a'') \<in> (set (constraints cyclic_sample))\<^sup>+"
    unfolding cs by (rule trancl_trans [of _ "''b''"]) auto
  then have h2: "\<not> acyclic (set (constraints cyclic_sample))"
    by (auto simp: acyclic_def)
  from cycle_is_fatal [OF h1 h2, of sample_env sample_parent None] h1 h2 show ?thesis
    by blast
qed

end
